theory Spec2Isabelle
  imports Main
begin

section \<open>Values, errors and the live document tree\<close>

text \<open>
  A style or attribute value is any JavaScript value with a string form. A plain string is
  its own string form; any other value object (a length, a colour, a font) has a reference
  identity and the string that its \<^verbatim>\<open>toString()\<close> returns.
\<close>

datatype sval = Str string | Obj nat string

fun toString :: "sval \<Rightarrow> string" where
  "toString (Str s) = s"
| "toString (Obj r s) = s"

text \<open>
  An entry of a handler list: a function, or some other object (an array, say). Both have a
  reference identity; only the first passes \<^verbatim>\<open>typeof h === "function"\<close>.
\<close>

datatype handler = Function nat | NotFunction nat

fun isFunction :: "handler \<Rightarrow> bool" where
  "isFunction (Function f) = True"
| "isFunction (NotFunction r) = False"

text \<open>
  \<open>Error msg\<close> is \<^verbatim>\<open>throw new Error(msg)\<close>; \<open>TypeError\<close> is what the engine raises
  when a property of \<^verbatim>\<open>null\<close> or \<^verbatim>\<open>undefined\<close> is read.
\<close>

datatype error = Error string | TypeError

definition bindE :: "error + 'a \<Rightarrow> ('a \<Rightarrow> error + 'b) \<Rightarrow> error + 'b" where
  "bindE m f = (case m of Inl e \<Rightarrow> Inl e | Inr x \<Rightarrow> f x)"

text \<open>
  The live output tree is the host's document: it is not code of the repository. A live
  node is modelled with its attributes, its listeners (the host keeps one entry per event
  name and callback), its children in order and its parent. A live node is referred to by
  its index in the list of all nodes created so far. The inline style of a live node is
  not part of the model: what an assignment \<^verbatim>\<open>node.style[k] = v\<close> does to it is decided by
  the CSS engine of the host (which normalises a value, ignores one that is not valid for
  the property, and sets or clears other properties along with a shorthand). An assignment
  is recorded as the call \<open>StyleSet\<close>, with the string that the host receives.
\<close>

record dom_node =
  nodeName :: string
  attrs :: "string \<rightharpoonup> string"
  listeners :: "(string \<times> handler) list"
  childNodes :: "nat list"
  parentNode :: "nat option"

text \<open>The calls that the reconciler's own code makes, in the order it makes them.\<close>

datatype call =
    StyleSet nat string string
  | RemoveEventListener nat string "handler option"
  | AddEventListener nat string handler
  | RemoveAttribute nat string
  | SetAttribute nat string string
  | ToHTMLNode nat
  | ReplaceWith nat nat
  | RemoveChild nat nat
  | InsertBefore nat nat "nat option"
  | Prepend nat nat
  | HandleMount nat
  | HandleInvalidation nat

record world =
  nodes :: "dom_node list"
  calls :: "call list"

definition logCall :: "call \<Rightarrow> world \<Rightarrow> world" where
  "logCall c w = w\<lparr>calls := calls w @ [c]\<rparr>"

definition updNode :: "nat \<Rightarrow> (dom_node \<Rightarrow> dom_node) \<Rightarrow> world \<Rightarrow> world" where
  "updNode d f w = (if d < length (nodes w) then w\<lparr>nodes := (nodes w)[d := f (nodes w ! d)]\<rparr> else w)"

definition attrsOf :: "world \<Rightarrow> nat \<Rightarrow> string \<rightharpoonup> string" where
  "attrsOf w d = attrs (nodes w ! d)"

definition listenersOf :: "world \<Rightarrow> nat \<Rightarrow> (string \<times> handler) list" where
  "listenersOf w d = listeners (nodes w ! d)"

definition childrenOf :: "world \<Rightarrow> nat \<Rightarrow> nat list" where
  "childrenOf w d = childNodes (nodes w ! d)"

definition parentOf :: "world \<Rightarrow> nat \<Rightarrow> nat option" where
  "parentOf w d = (if d < length (nodes w) then parentNode (nodes w ! d) else None)"

definition setAttribute :: "nat \<Rightarrow> string \<Rightarrow> string \<Rightarrow> world \<Rightarrow> world" where
  "setAttribute d k s w = updNode d (\<lambda>n. n\<lparr>attrs := (attrs n)(k \<mapsto> s)\<rparr>) w"

definition removeAttribute :: "nat \<Rightarrow> string \<Rightarrow> world \<Rightarrow> world" where
  "removeAttribute d k w = updNode d (\<lambda>n. n\<lparr>attrs := (attrs n)(k := None)\<rparr>) w"

text \<open>
  \<^verbatim>\<open>addEventListener\<close> does nothing when the same callback is already listed for the
  event; \<^verbatim>\<open>removeEventListener\<close> with an \<^verbatim>\<open>undefined\<close> callback removes nothing.
\<close>

definition addEventListener :: "nat \<Rightarrow> string \<Rightarrow> handler \<Rightarrow> world \<Rightarrow> world" where
  "addEventListener d ev h w =
     updNode d (\<lambda>n. n\<lparr>listeners := (if (ev, h) \<in> set (listeners n) then listeners n
                                    else listeners n @ [(ev, h)])\<rparr>) w"

definition removeEventListener :: "nat \<Rightarrow> string \<Rightarrow> handler option \<Rightarrow> world \<Rightarrow> world" where
  "removeEventListener d ev ho w =
     (case ho of None \<Rightarrow> w
      | Some h \<Rightarrow> updNode d (\<lambda>n. n\<lparr>listeners := remove1 (ev, h) (listeners n)\<rparr>) w)"

text \<open>Taking a node out of its parent's child list; a node without a parent stays as it is.\<close>

definition detach :: "nat \<Rightarrow> world \<Rightarrow> world" where
  "detach c w =
     (case parentOf w c of None \<Rightarrow> w
      | Some p \<Rightarrow> updNode c (\<lambda>n. n\<lparr>parentNode := None\<rparr>)
                   (updNode p (\<lambda>n. n\<lparr>childNodes := remove1 c (childNodes n)\<rparr>) w))"

fun insertAt :: "nat \<Rightarrow> nat option \<Rightarrow> nat list \<Rightarrow> nat list" where
  "insertAt c None xs = xs @ [c]"
| "insertAt c (Some r) [] = [c]"
| "insertAt c (Some r) (x # xs) = (if x = r then c # x # xs else x # insertAt c (Some r) xs)"

text \<open>\<^verbatim>\<open>p.insertBefore(c, r)\<close>: \<open>c\<close> leaves its old parent and goes before \<open>r\<close>, or last
  when \<open>r\<close> is \<^verbatim>\<open>null\<close>.\<close>

definition insertBefore :: "nat \<Rightarrow> nat \<Rightarrow> nat option \<Rightarrow> world \<Rightarrow> world" where
  "insertBefore p c r w =
     updNode c (\<lambda>n. n\<lparr>parentNode := Some p\<rparr>)
       (updNode p (\<lambda>n. n\<lparr>childNodes := insertAt c r (childNodes n)\<rparr>) (detach c w))"

definition appendChild :: "nat \<Rightarrow> nat \<Rightarrow> world \<Rightarrow> world" where
  "appendChild p c w = insertBefore p c None w"

definition prepend :: "nat \<Rightarrow> nat \<Rightarrow> world \<Rightarrow> world" where
  "prepend p c w =
     updNode c (\<lambda>n. n\<lparr>parentNode := Some p\<rparr>)
       (updNode p (\<lambda>n. n\<lparr>childNodes := c # childNodes n\<rparr>) (detach c w))"

definition removeChild :: "nat \<Rightarrow> nat \<Rightarrow> world \<Rightarrow> world" where
  "removeChild p c w =
     updNode c (\<lambda>n. n\<lparr>parentNode := None\<rparr>)
       (updNode p (\<lambda>n. n\<lparr>childNodes := remove1 c (childNodes n)\<rparr>) w)"

fun nextIn :: "nat \<Rightarrow> nat list \<Rightarrow> nat option" where
  "nextIn d [] = None"
| "nextIn d [x] = None"
| "nextIn d (x # y # xs) = (if x = d then Some y else nextIn d (y # xs))"

definition nextSibling :: "world \<Rightarrow> nat \<Rightarrow> nat option" where
  "nextSibling w d =
     (case parentOf w d of None \<Rightarrow> None | Some p \<Rightarrow> nextIn d (childrenOf w p))"

text \<open>\<^verbatim>\<open>old.replaceWith(new)\<close>: nothing happens when \<open>old\<close> has no parent.\<close>

definition replaceWith :: "nat \<Rightarrow> nat \<Rightarrow> world \<Rightarrow> world" where
  "replaceWith old new w =
     (case parentOf w old of None \<Rightarrow> w
      | Some p \<Rightarrow>
          (let w1 = detach new w
           in updNode new (\<lambda>n. n\<lparr>parentNode := Some p\<rparr>)
                (updNode old (\<lambda>n. n\<lparr>parentNode := None\<rparr>)
                  (updNode p (\<lambda>n. n\<lparr>childNodes := map (\<lambda>x. if x = old then new else x) (childNodes n)\<rparr>) w1))))"


section \<open>Virtual nodes\<close>

text \<open>
  Modelled from the spec: the class \<^verbatim>\<open>VNode\<close> and the enumeration \<^verbatim>\<open>VNodeType\<close>
  (\<^verbatim>\<open>VirtualDOM/VNode.js\<close> is not among the sources). The fields are the ones that
  \<^verbatim>\<open>Reconciler.js\<close> and \<^verbatim>\<open>View.js\<close> read and write: \<^verbatim>\<open>tag\<close>, \<^verbatim>\<open>type\<close>,
  \<^verbatim>\<open>key\<close>, \<^verbatim>\<open>styles\<close>, \<^verbatim>\<open>events\<close>, \<^verbatim>\<open>attributes\<close>, \<^verbatim>\<open>body\<close>, \<^verbatim>\<open>dom\<close>
  and \<^verbatim>\<open>view\<close>. An object used as a dictionary is an association list in insertion
  order, the first entry of a key being its property. A key is a number, a string or
  \<^verbatim>\<open>null\<close>; a number is a double, and \<open>KNum n\<close> is the double nearest to the integer \<open>n\<close>
  (a number with a fractional part, or \<^verbatim>\<open>NaN\<close>, is not represented). At reconciliation
  time every child is itself a virtual node; \<^verbatim>\<open>dom\<close> refers to a live node and
  \<^verbatim>\<open>view\<close> to the originating View, both possibly unset.
\<close>

datatype VNodeType = Element | Text | Fragment

datatype vkey = KNull | KNum int | KStr string

datatype VNode =
  VNode (tag: "string option") (type: VNodeType) (key: vkey)
        (styles: "(string \<times> sval) list")
        (events: "(string \<times> handler list) list")
        (attributes: "(string \<times> sval) list")
        (body: "VNode list")
        (dom_ref: "nat option")
        (view: "nat option")

text \<open>Truthiness of a key: \<^verbatim>\<open>null\<close>, \<open>0\<close> and the empty string are falsy.\<close>

fun truthy :: "vkey \<Rightarrow> bool" where
  "truthy KNull = False"
| "truthy (KNum n) = (n \<noteq> 0)"
| "truthy (KStr s) = (s \<noteq> [])"

text \<open>
  The integer that a double holds: integers below \<open>2 ^ 53\<close> in absolute value are doubles;
  a larger one is rounded to 53 significant bits, a tie going to the even neighbour, and
  anything from \<open>2 ^ 1024\<close> on is infinite (written \<open>2 ^ 1024\<close> here).
\<close>

function bitLength :: "int \<Rightarrow> nat" where
  "bitLength n = (if n \<le> 0 then 0 else Suc (bitLength (n div 2)))"
  by pat_completeness auto
termination
  by (relation "measure nat") auto

declare bitLength.simps [simp del]

definition toDouble :: "int \<Rightarrow> int" where
  "toDouble n =
     (let a = \<bar>n\<bar> in
      if a < 2 ^ 53 then n
      else (let e = bitLength a - 53; q = a div 2 ^ e; r = a mod 2 ^ e;
                m = (if 2 ^ e < 2 * r \<or> (2 * r = 2 ^ e \<and> odd q) then q + 1 else q) * 2 ^ e
            in sgn n * (if 2 ^ 1024 \<le> m then 2 ^ 1024 else m)))"

text \<open>\<^verbatim>\<open>a === b\<close> on two keys.\<close>

fun sameKey :: "vkey \<Rightarrow> vkey \<Rightarrow> bool" where
  "sameKey KNull KNull = True"
| "sameKey (KNum a) (KNum b) = (toDouble a = toDouble b)"
| "sameKey (KStr a) (KStr b) = (a = b)"
| "sameKey a b = False"

text \<open>
  The properties that every dictionary inherits from \<^verbatim>\<open>Object.prototype\<close>, which is part
  of the language and not of the repository. None of them is enumerable. Each is given with
  the string that its \<^verbatim>\<open>toString()\<close> returns (the functions as V8 prints them).
\<close>

definition objectPrototype :: "(string \<times> sval) list" where
  "objectPrototype =
     [(''constructor'', Obj 0 ''function Object() { [native code] }''),
      (''__defineGetter__'', Obj 0 ''function __defineGetter__() { [native code] }''),
      (''__defineSetter__'', Obj 0 ''function __defineSetter__() { [native code] }''),
      (''hasOwnProperty'', Obj 0 ''function hasOwnProperty() { [native code] }''),
      (''__lookupGetter__'', Obj 0 ''function __lookupGetter__() { [native code] }''),
      (''__lookupSetter__'', Obj 0 ''function __lookupSetter__() { [native code] }''),
      (''isPrototypeOf'', Obj 0 ''function isPrototypeOf() { [native code] }''),
      (''propertyIsEnumerable'', Obj 0 ''function propertyIsEnumerable() { [native code] }''),
      (''toString'', Obj 0 ''function toString() { [native code] }''),
      (''valueOf'', Obj 0 ''function valueOf() { [native code] }''),
      (''__proto__'', Obj 0 ''[object Object]''),
      (''toLocaleString'', Obj 0 ''function toLocaleString() { [native code] }'')]"

definition inherited :: "string \<Rightarrow> bool" where
  "inherited i = (map_of objectPrototype i \<noteq> None)"

text \<open>\<^verbatim>\<open>i in obj\<close>: an own property or an inherited one.\<close>

definition hasKey :: "string \<Rightarrow> (string \<times> 'a) list \<Rightarrow> bool" where
  "hasKey i obj = (map_of obj i \<noteq> None \<or> inherited i)"

text \<open>\<^verbatim>\<open>obj[i]\<close> on a dictionary of values: the own property, else the inherited one.\<close>

definition getProp :: "(string \<times> sval) list \<Rightarrow> string \<Rightarrow> sval option" where
  "getProp obj i = (case map_of obj i of Some v \<Rightarrow> Some v | None \<Rightarrow> map_of objectPrototype i)"

text \<open>
  \<^verbatim>\<open>for (let i in obj)\<close>: the own keys, those that are array indices (canonical decimal
  numerals below \<open>2 ^ 32 - 1\<close>) first, in ascending order, then the others in insertion
  order.
\<close>

definition isDigit :: "char \<Rightarrow> bool" where
  "isDigit c = (c \<in> set ''0123456789'')"

definition digitsValue :: "string \<Rightarrow> int" where
  "digitsValue k = foldl (\<lambda>n c. 10 * n + (of_char c - 48)) 0 k"

definition isArrayIndex :: "string \<Rightarrow> bool" where
  "isArrayIndex k \<longleftrightarrow>
     k \<noteq> [] \<and> list_all isDigit k \<and> (hd k \<noteq> CHR ''0'' \<or> k = ''0'') \<and> digitsValue k < 4294967295"

definition forIn :: "(string \<times> 'a) list \<Rightarrow> string list" where
  "forIn obj =
     (let ks = rev (remdups (rev (map fst obj)))
      in sort_key digitsValue (filter isArrayIndex ks) @ filter (\<lambda>k. \<not> isArrayIndex k) ks)"

definition domOf :: "VNode \<Rightarrow> error + nat" where
  "domOf v = (case dom_ref v of None \<Rightarrow> Inl TypeError | Some d \<Rightarrow> Inr d)"

definition textNode :: dom_node where
  "textNode = \<lparr>nodeName = ''#text'', attrs = Map.empty, listeners = [],
               childNodes = [], parentNode = None\<rparr>"

definition functionsOf :: "(string \<times> handler list) list \<Rightarrow> (string \<times> handler) list" where
  "functionsOf evs = remdups (concat (map (\<lambda>(i, hs). map (Pair i) (filter isFunction hs)) evs))"

definition elementNode :: "VNode \<Rightarrow> dom_node" where
  "elementNode v =
     \<lparr>nodeName = (case tag v of None \<Rightarrow> [] | Some t \<Rightarrow> t),
      attrs = (\<lambda>k. map_option toString (map_of (attributes v) k)),
      listeners = functionsOf (events v),
      childNodes = [], parentNode = None\<rparr>"

text \<open>
  Modelled from the spec: \<^verbatim>\<open>VNode.toHTMLNode({ save: true })\<close>, the spec's
  \<^verbatim>\<open>materialize()\<close>. It builds a fresh live subtree for the node: a text node for kind
  Text, otherwise an element carrying the node's attributes and function handlers (and
  its styles, which the model of a live node leaves out) with the children's fresh
  subtrees appended in order; with \<^verbatim>\<open>save\<close> every virtual node of the subtree is bound
  to the live node built for it.
\<close>

fun toHTMLNode :: "VNode \<Rightarrow> world \<Rightarrow> VNode \<times> world"
  and appendAll :: "nat \<Rightarrow> VNode list \<Rightarrow> world \<Rightarrow> VNode list \<times> world" where
  "toHTMLNode (VNode tg ty k st ev at b dm vw) w =
     (let d = length (nodes w) in
      if ty = Text
      then (VNode tg ty k st ev at b (Some d) vw, w\<lparr>nodes := nodes w @ [textNode]\<rparr>)
      else (case appendAll d b (w\<lparr>nodes := nodes w @ [elementNode (VNode tg ty k st ev at b dm vw)]\<rparr>) of
              (b', w') \<Rightarrow> (VNode tg ty k st ev at b' (Some d) vw, w')))"
| "appendAll d [] w = ([], w)"
| "appendAll d (c # cs) w =
     (case toHTMLNode c w of
        (c', w1) \<Rightarrow>
          (case appendAll d cs (appendChild d (length (nodes w)) w1) of
             (cs', w2) \<Rightarrow> (c' # cs', w2)))"

section \<open>The reconciler\<close>

fun forEach :: "'a list \<Rightarrow> ('a \<Rightarrow> world \<Rightarrow> error + world) \<Rightarrow> world \<Rightarrow> error + world" where
  "forEach [] f w = Inr w"
| "forEach (x # xs) f w = bindE (f x w) (forEach xs f)"

text \<open>\<^verbatim>\<open>a[i].toString() === b[i].toString()\<close>, evaluated when \<^verbatim>\<open>i in a\<close> holds and \<open>i\<close> is
  an own key of \<open>b\<close>, so that both values exist.\<close>

definition sameString :: "string \<Rightarrow> (string \<times> sval) list \<Rightarrow> (string \<times> sval) list \<Rightarrow> bool" where
  "sameString i a b =
     (case getProp a i of None \<Rightarrow> False
      | Some x \<Rightarrow> (case getProp b i of None \<Rightarrow> False | Some y \<Rightarrow> toString x = toString y))"

text \<open>First loop: a style of \<open>lastVNode\<close> for which \<^verbatim>\<open>i in vNode.styles\<close> is false is
  assigned the empty string.\<close>

definition clearStyles :: "VNode \<Rightarrow> VNode \<Rightarrow> world \<Rightarrow> error + world" where
  "clearStyles lastVNode vNode =
     forEach (forIn (styles lastVNode)) (\<lambda>i w.
       if \<not> hasKey i (styles vNode)
       then bindE (domOf lastVNode) (\<lambda>d. Inr (logCall (StyleSet d i []) w))
       else Inr w)"

text \<open>Second loop: a style of \<open>vNode\<close> is assigned unless \<^verbatim>\<open>i in lastVNode.styles\<close> holds
  and the two values have the same string form. (The key comes from the dictionary itself,
  so the lookup succeeds.)\<close>

definition writeStyles :: "VNode \<Rightarrow> VNode \<Rightarrow> world \<Rightarrow> error + world" where
  "writeStyles lastVNode vNode =
     forEach (forIn (styles vNode)) (\<lambda>i w.
       if \<not> (hasKey i (styles lastVNode) \<and> sameString i (styles lastVNode) (styles vNode))
       then bindE (domOf lastVNode) (\<lambda>d.
              case getProp (styles vNode) i of None \<Rightarrow> Inr w
              | Some v \<Rightarrow> Inr (logCall (StyleSet d i (toString v)) w))
       else Inr w)"

text \<open>\<^verbatim>\<open>obj[i]\<close> as a handler list to iterate: nothing to visit when \<open>i\<close> is not an own
  key (an inherited property has no enumerable property to visit either).\<close>

definition handlersOf :: "(string \<times> handler list) list \<Rightarrow> string \<Rightarrow> handler list" where
  "handlersOf evs i = (case map_of evs i of None \<Rightarrow> [] | Some hs \<Rightarrow> hs)"

definition nthOpt :: "'a list \<Rightarrow> nat \<Rightarrow> 'a option" where
  "nthOpt xs j = (if j < length xs then Some (xs ! j) else None)"

text \<open>Third loop: for every event name \<open>i\<close> of \<open>lastVNode\<close> and every index \<open>j\<close> of
  \<open>vNode.events[i]\<close>, the handler \<open>lastVNode.events[i][j]\<close> is detached.\<close>

definition detachHandlers :: "VNode \<Rightarrow> VNode \<Rightarrow> world \<Rightarrow> error + world" where
  "detachHandlers lastVNode vNode =
     forEach (forIn (events lastVNode)) (\<lambda>i.
       forEach [0 ..< length (handlersOf (events vNode) i)] (\<lambda>j w.
         bindE (domOf lastVNode) (\<lambda>d.
           let h = nthOpt (handlersOf (events lastVNode) i) j
           in Inr (removeEventListener d i h (logCall (RemoveEventListener d i h) w)))))"

text \<open>Fourth loop: every function listed on \<open>vNode\<close> is attached.\<close>

definition attachHandlers :: "VNode \<Rightarrow> VNode \<Rightarrow> world \<Rightarrow> error + world" where
  "attachHandlers lastVNode vNode =
     forEach (forIn (events vNode)) (\<lambda>i.
       forEach (handlersOf (events vNode) i) (\<lambda>h w.
         if isFunction h
         then bindE (domOf lastVNode) (\<lambda>d.
                Inr (addEventListener d i h (logCall (AddEventListener d i h) w)))
         else Inr w))"

text \<open>Fifth and sixth loops: attributes, as the styles.\<close>

definition removeAttributes :: "VNode \<Rightarrow> VNode \<Rightarrow> world \<Rightarrow> error + world" where
  "removeAttributes lastVNode vNode =
     forEach (forIn (attributes lastVNode)) (\<lambda>i w.
       if \<not> hasKey i (attributes vNode)
       then bindE (domOf lastVNode) (\<lambda>d. Inr (removeAttribute d i (logCall (RemoveAttribute d i) w)))
       else Inr w)"

definition writeAttributes :: "VNode \<Rightarrow> VNode \<Rightarrow> world \<Rightarrow> error + world" where
  "writeAttributes lastVNode vNode =
     forEach (forIn (attributes vNode)) (\<lambda>i w.
       if \<not> (hasKey i (attributes lastVNode) \<and> sameString i (attributes lastVNode) (attributes vNode))
       then bindE (domOf lastVNode) (\<lambda>d.
              case getProp (attributes vNode) i of None \<Rightarrow> Inr w
              | Some v \<Rightarrow> Inr (setAttribute d i (toString v) (logCall (SetAttribute d i (toString v)) w)))
       else Inr w)"

text \<open>The inner search of the keyed regime: the first index \<open>j\<close> of the next children with
  \<^verbatim>\<open>vNode.body[j].key && lastVNode.body[i].key && lastVNode.body[i].key === vNode.body[j].key\<close>.\<close>

fun findKey :: "VNode \<Rightarrow> VNode list \<Rightarrow> nat \<Rightarrow> nat option" where
  "findKey p [] j = None"
| "findKey p (n # ns) j =
     (if truthy (key n) \<and> truthy (key p) \<and> sameKey (key p) (key n) then Some j
      else findKey p ns (Suc j))"

text \<open>\<^verbatim>\<open>child.dom.parentNode.removeChild(child.dom)\<close>\<close>

definition removeFromParent :: "VNode \<Rightarrow> world \<Rightarrow> error + world" where
  "removeFromParent p w =
     bindE (domOf p) (\<lambda>c.
       case parentOf w c of None \<Rightarrow> Inl TypeError
       | Some par \<Rightarrow> Inr (removeChild par c (logCall (RemoveChild par c) w)))"

text \<open>
  The loop over the previous children in the keyed regime. \<open>nb\<close> is \<open>vNode.body\<close>, whose
  entries the recursive calls bind to live nodes, and \<open>ks\<close> is \<open>keysUpdated\<close>.
\<close>

fun keyedPrev ::
  "(VNode \<Rightarrow> VNode \<Rightarrow> world \<Rightarrow> error + (VNode \<times> world)) \<Rightarrow> VNode list \<Rightarrow> VNode list \<Rightarrow>
   vkey list \<Rightarrow> world \<Rightarrow> error + (VNode list \<times> vkey list \<times> world)" where
  "keyedPrev rec [] nb ks w = Inr (nb, ks, w)"
| "keyedPrev rec (p # ps) nb ks w =
     (case findKey p nb 0 of
        Some j \<Rightarrow>
          bindE (rec p (nb ! j) w) (\<lambda>(n', w').
            keyedPrev rec ps (nb[j := n']) (ks @ [key (nb ! j)]) w')
      | None \<Rightarrow> bindE (removeFromParent p w) (keyedPrev rec ps nb ks))"

text \<open>
  The loop over the next children in the keyed regime. \<open>prev\<close> is \<open>vNode.body[i - 1]\<close>,
  absent when \<open>i = 0\<close>; \<^verbatim>\<open>keysUpdated.indexOf(key) < 0\<close> says that no entry is \<^verbatim>\<open>===\<close>
  to the key.
\<close>

fun placeNew ::
  "VNode \<Rightarrow> vkey list \<Rightarrow> VNode option \<Rightarrow> VNode list \<Rightarrow> world \<Rightarrow> error + (VNode list \<times> world)" where
  "placeNew lastVNode ks prev [] w = Inr ([], w)"
| "placeNew lastVNode ks prev (n # ns) w =
     (if \<not> truthy (key n) \<or> (truthy (key n) \<and> \<not> list_ex (sameKey (key n)) ks)
      then (case toHTMLNode n (logCall (ToHTMLNode (length (nodes w))) w) of
              (n', w1) \<Rightarrow>
                bindE (case prev of
                         Some pv \<Rightarrow>
                           bindE (domOf pv) (\<lambda>pd.
                             case parentOf w1 pd of None \<Rightarrow> Inl TypeError
                             | Some par \<Rightarrow>
                                 Inr (insertBefore par (length (nodes w)) (nextSibling w1 pd)
                                       (logCall (InsertBefore par (length (nodes w)) (nextSibling w1 pd)) w1)))
                       | None \<Rightarrow>
                           bindE (domOf lastVNode) (\<lambda>d.
                             Inr (prepend d (length (nodes w)) (logCall (Prepend d (length (nodes w))) w1))))
                  (\<lambda>w2. bindE (placeNew lastVNode ks (Some n') ns
                                 (case view n' of None \<Rightarrow> w2 | Some v \<Rightarrow> logCall (HandleMount v) w2))
                          (\<lambda>(ns', w3). Inr (n' # ns', w3))))
      else bindE (placeNew lastVNode ks (Some n) ns w) (\<lambda>(ns', w'). Inr (n # ns', w')))"

text \<open>The positional regime: \<open>lastVNode.body[i]\<close> against \<open>vNode.body[i]\<close> for every index
  of \<open>vNode.body\<close>; an index that \<open>lastVNode.body\<close> lacks would read \<^verbatim>\<open>undefined.tag\<close>.\<close>

fun positional ::
  "(VNode \<Rightarrow> VNode \<Rightarrow> world \<Rightarrow> error + (VNode \<times> world)) \<Rightarrow> VNode list \<Rightarrow> VNode list \<Rightarrow>
   world \<Rightarrow> error + (VNode list \<times> world)" where
  "positional rec ps [] w = Inr ([], w)"
| "positional rec [] (n # ns) w = Inl TypeError"
| "positional rec (p # ps) (n # ns) w =
     bindE (rec p n w) (\<lambda>(n', w').
       bindE (positional rec ps ns w') (\<lambda>(ns', w''). Inr (n' # ns', w'')))"

lemma bindE_cong [fundef_cong]:
  "m = m' \<Longrightarrow> (\<And>x. m' = Inr x \<Longrightarrow> f x = f' x) \<Longrightarrow> bindE m f = bindE m' f'"
  by (cases m') (simp_all add: bindE_def)

lemma keyedPrev_cong [fundef_cong]:
  "ps = ps' \<Longrightarrow> nb = nb' \<Longrightarrow> ks = ks' \<Longrightarrow> w = w' \<Longrightarrow>
   (\<And>p n v. p \<in> set ps' \<Longrightarrow> rec p n v = rec' p n v) \<Longrightarrow>
   keyedPrev rec ps nb ks w = keyedPrev rec' ps' nb' ks' w'"
proof (induction ps' arbitrary: ps nb nb' ks ks' w w')
  case Nil
  then show ?case by simp
next
  case (Cons p ps')
  have tl: "keyedPrev rec ps' a b c = keyedPrev rec' ps' a b c" for a b c
    by (rule Cons.IH) (simp_all add: Cons.prems)
  show ?case
    using Cons.prems tl
    by (auto simp: bindE_def split: option.splits sum.splits)
qed

lemma positional_cong [fundef_cong]:
  "ps = ps' \<Longrightarrow> ns = ns' \<Longrightarrow> w = w' \<Longrightarrow>
   (\<And>p n v. p \<in> set ps' \<Longrightarrow> rec p n v = rec' p n v) \<Longrightarrow>
   positional rec ps ns w = positional rec' ps' ns' w'"
proof (induction ps' arbitrary: ps ns ns' w w')
  case Nil
  then show ?case by (cases ns') simp_all
next
  case (Cons p ps')
  have tl: "positional rec ps' a b = positional rec' ps' a b" for a b
    by (rule Cons.IH) (simp_all add: Cons.prems)
  show ?case
    using Cons.prems tl
    by (cases ns') (auto simp: bindE_def split: sum.splits)
qed

text \<open>
  \<^verbatim>\<open>Reconciler.updateVNodeDOM(lastVNode, vNode)\<close>. The result is \<open>vNode\<close> as the call
  leaves it (bound to live nodes) with the world after the call, or the error raised.
\<close>

function updateVNodeDOM :: "VNode \<Rightarrow> VNode \<Rightarrow> world \<Rightarrow> error + (VNode \<times> world)" where
  "updateVNodeDOM lastVNode vNode w =
     (if tag lastVNode \<noteq> tag vNode \<or> type lastVNode = Text \<or> type vNode = Text
      then bindE (domOf lastVNode) (\<lambda>d.
             case toHTMLNode vNode (logCall (ToHTMLNode (length (nodes w))) w) of
               (vNode', w1) \<Rightarrow>
                 Inr (vNode', replaceWith d (length (nodes w)) (logCall (ReplaceWith d (length (nodes w))) w1)))
      else
        bindE (clearStyles lastVNode vNode w) (\<lambda>w1.
        bindE (writeStyles lastVNode vNode w1) (\<lambda>w2.
        bindE (detachHandlers lastVNode vNode w2) (\<lambda>w3.
        bindE (attachHandlers lastVNode vNode w3) (\<lambda>w4.
        bindE (removeAttributes lastVNode vNode w4) (\<lambda>w5.
        bindE (writeAttributes lastVNode vNode w5) (\<lambda>w6.
        bindE (if length (body lastVNode) \<noteq> length (body vNode)
               then bindE (keyedPrev (\<lambda>p n v. updateVNodeDOM p n v) (body lastVNode) (body vNode) [] w6)
                      (\<lambda>(nb, ks, w7). placeNew lastVNode ks None nb w7)
               else positional (\<lambda>p n v. updateVNodeDOM p n v) (body lastVNode) (body vNode) w6)
          (\<lambda>(nb, w8).
             Inr (VNode (tag vNode) (type vNode) (key vNode) (styles vNode) (events vNode)
                    (attributes vNode) nb (dom_ref lastVNode) (view vNode),
                  (case view vNode of None \<Rightarrow> w8
                   | Some v \<Rightarrow> logCall (HandleInvalidation v) w8))))))))))"
  by pat_completeness auto
termination
proof (relation "measure (\<lambda>(lastVNode, vNode, w). size lastVNode)")
  show "wf (measure (\<lambda>(lastVNode, vNode, w). size lastVNode))"
    by simp
next
  fix lastVNode p vNode n :: VNode and w v :: world
  assume "p \<in> set (body lastVNode)"
  then have "size p < size lastVNode"
    by (cases lastVNode) (auto simp: less_Suc_eq_le dest: size_list_estimation')
  then show "((p, n, v), lastVNode, vNode, w) \<in> measure (\<lambda>(lastVNode, vNode, w). size lastVNode)"
    by simp
next
  fix lastVNode p vNode n :: VNode and w v :: world
  assume "p \<in> set (body lastVNode)"
  then have "size p < size lastVNode"
    by (cases lastVNode) (auto simp: less_Suc_eq_le dest: size_list_estimation')
  then show "((p, n, v), lastVNode, vNode, w) \<in> measure (\<lambda>(lastVNode, vNode, w). size lastVNode)"
    by simp
qed

declare updateVNodeDOM.simps [simp del]

text \<open>The test that opens \<open>updateVNodeDOM\<close>: the pair is not diffed but rebuilt.\<close>

definition rebuildCase :: "VNode \<Rightarrow> VNode \<Rightarrow> bool" where
  "rebuildCase lastVNode vNode \<longleftrightarrow>
     tag lastVNode \<noteq> tag vNode \<or> type lastVNode = Text \<or> type vNode = Text"

section \<open>Which live nodes a call may touch\<close>


text \<open>The live node on which a style, attribute or listener call acts.\<close>

fun target :: "call \<Rightarrow> nat option" where
  "target (StyleSet d k s) = Some d"
| "target (RemoveEventListener d i h) = Some d"
| "target (AddEventListener d i h) = Some d"
| "target (RemoveAttribute d k) = Some d"
| "target (SetAttribute d k s) = Some d"
| "target c = None"

definition samePayload :: "dom_node \<Rightarrow> dom_node \<Rightarrow> bool" where
  "samePayload a b \<longleftrightarrow> attrs a = attrs b \<and> listeners a = listeners b"

text \<open>
  \<open>confined D w w'\<close>: going from \<open>w\<close> to \<open>w'\<close>, live nodes were only added, the
  attributes and listeners of an existing live node outside \<open>D\<close> are what they were, and
  every style, attribute or listener call that was made acts on a node of \<open>D\<close>.
\<close>

definition confined :: "nat set \<Rightarrow> world \<Rightarrow> world \<Rightarrow> bool" where
  "confined D w w' \<longleftrightarrow>
     length (nodes w) \<le> length (nodes w') \<and>
     (\<forall>e. e < length (nodes w) \<and> e \<notin> D \<longrightarrow> samePayload (nodes w' ! e) (nodes w ! e)) \<and>
     (\<exists>cs. calls w' = calls w @ cs \<and> (\<forall>c e. c \<in> set cs \<and> target c = Some e \<longrightarrow> e \<in> D))"

text \<open>A copy of a tree: the same nodes, bound to no live node.\<close>

fun erase :: "VNode \<Rightarrow> VNode" where
  "erase (VNode tg ty k st ev at b dm vw) = VNode tg ty k st ev at (map erase b) None vw"

text \<open>A committed tree: every node of it is bound to a live node.\<close>

fun bound :: "VNode \<Rightarrow> bool" where
  "bound (VNode tg ty k st ev at b dm vw) \<longleftrightarrow> dm \<noteq> None \<and> list_all bound b"

fun styleOrAttributeCall :: "call \<Rightarrow> bool" where
  "styleOrAttributeCall (StyleSet d k s) = True"
| "styleOrAttributeCall (RemoveAttribute d k) = True"
| "styleOrAttributeCall (SetAttribute d k s) = True"
| "styleOrAttributeCall c = False"

fun isHandlerCall :: "call \<Rightarrow> bool" where
  "isHandlerCall (RemoveEventListener d i h) = True"
| "isHandlerCall (AddEventListener d i h) = True"
| "isHandlerCall c = False"


text \<open>\<open>emits P cs w w'\<close>: the calls made from \<open>w\<close> to \<open>w'\<close> that satisfy \<open>P\<close> are \<open>cs\<close>, in
  this order.\<close>

definition emits :: "(call \<Rightarrow> bool) \<Rightarrow> call list \<Rightarrow> world \<Rightarrow> world \<Rightarrow> bool" where
  "emits P cs w w' \<longleftrightarrow> (\<exists>ds. calls w' = calls w @ ds \<and> filter P ds = cs)"

subsection \<open>What the diff of two style dictionaries should assign\<close>





subsection \<open>What the diff of a tree against a copy of itself should do to the handlers\<close>

text \<open>
  For every node that is not of kind Text, in document order: every handler listed is
  detached, event name by event name, then every function listed is attached; then the
  children follow. A node of kind Text is replaced, and nothing below it is visited.
\<close>

fun handlerCalls :: "VNode \<Rightarrow> call list" where
  "handlerCalls (VNode tg ty k st ev at b dm vw) =
     (if ty = Text then []
      else (case dm of None \<Rightarrow> []
            | Some d \<Rightarrow>
                concat (map (\<lambda>i. map (\<lambda>h. RemoveEventListener d i (Some h)) (handlersOf ev i)) (forIn ev)) @
                concat (map (\<lambda>i. map (AddEventListener d i) (filter isFunction (handlersOf ev i))) (forIn ev)))
           @ concat (map handlerCalls b))"

text \<open>The tree structure of the live document: the children and the parent of every node.\<close>

definition shape :: "world \<Rightarrow> (nat list \<times> nat option) list" where
  "shape w = map (\<lambda>n. (childNodes n, parentNode n)) (nodes w)"

section \<open>Concrete nodes and worlds\<close>

definition emptyWorld :: world where
  "emptyWorld = \<lparr>nodes = [], calls = []\<rparr>"

definition clickOld :: VNode where
  "clickOld = VNode (Some ''div'') Element KNull [] [(''click'', [Function 1])] [] [] None None"

definition clickNone :: VNode where
  "clickNone = VNode (Some ''div'') Element KNull [] [] [] [] None None"

definition clickEmpty :: VNode where
  "clickEmpty = VNode (Some ''div'') Element KNull [] [(''click'', [])] [] [] None None"

definition plainText :: VNode where
  "plainText = VNode None Text KNull [] [] [] [] None None"

definition textInDiv :: VNode where
  "textInDiv = VNode (Some ''div'') Element KNull [] [] [] [plainText] None None"

definition redParagraph :: VNode where
  "redParagraph = VNode (Some ''p'') Element KNull [(''color'', Str ''red'')] [] [(''id'', Str ''x'')] [] None None"

definition divTree :: VNode where
  "divTree = VNode (Some ''div'') Element KNull [(''color'', Str ''red'')] [] [] [redParagraph] None None"

definition spanTree :: VNode where
  "spanTree = VNode (Some ''span'') Element KNull [(''color'', Str ''blue'')] [] [] [redParagraph] None None"



definition nodeA :: "nat option \<Rightarrow> VNode" where
  "nodeA d = VNode (Some ''a'') Element (KNum 1) [] [] [] [] d None"

definition nodeB :: "nat option \<Rightarrow> VNode" where
  "nodeB d = VNode (Some ''b'') Element (KNum 2) [] [] [] [] d None"

definition nodeC :: VNode where
  "nodeC = VNode (Some ''c'') Element (KNum 3) [] [] [] [] None (Some 7)"

definition keyedOld :: VNode where
  "keyedOld = VNode (Some ''div'') Element KNull [] [] [] [nodeA None, nodeB None] None None"

definition keyedNew :: VNode where
  "keyedNew = VNode (Some ''div'') Element KNull [] [] [] [nodeB None, nodeA None, nodeC] None None"



text \<open>A \<^verbatim>\<open>div\<close> that listens to two events, with a listening paragraph and a text.\<close>

definition listeningParagraph :: VNode where
  "listeningParagraph =
     VNode (Some ''p'') Element KNull [] [(''click'', [Function 4])] [(''id'', Str ''x'')] [] None None"

definition listeningTree :: VNode where
  "listeningTree =
     VNode (Some ''div'') Element KNull [(''color'', Str ''red'')]
       [(''click'', [Function 1, NotFunction 2]), (''keyup'', [Function 3])] []
       [listeningParagraph, plainText] None None"

section \<open>Basic facts about the call log\<close>

lemma calls_updNode [simp]: "calls (updNode d f w) = calls w"
  by (simp add: updNode_def)

lemma calls_logCall [simp]: "calls (logCall c w) = calls w @ [c]"
  by (simp add: logCall_def)

lemma nodes_logCall [simp]: "nodes (logCall c w) = nodes w"
  by (simp add: logCall_def)

lemma calls_detach [simp]: "calls (detach c w) = calls w"
  by (simp add: detach_def split: option.splits)

lemma calls_insertBefore [simp]: "calls (insertBefore p c r w) = calls w"
  by (simp add: insertBefore_def)

lemma calls_appendChild [simp]: "calls (appendChild p c w) = calls w"
  by (simp add: appendChild_def)

lemma calls_replaceWith [simp]: "calls (replaceWith a b w) = calls w"
  by (simp add: replaceWith_def Let_def split: option.splits)

lemma toHTMLNode_calls:
  "calls (snd (toHTMLNode v w)) = calls w"
  "calls (snd (appendAll d cs w)) = calls w"
proof (induction v w and d cs w rule: toHTMLNode_appendAll.induct)
  case (1 tg ty k st ev at b dm vw w)
  then show ?case
    by (auto simp: Let_def split: prod.splits)
next
  case (2 d w)
  show ?case by simp
next
  case (3 d c cs w)
  obtain c' w1 where t: "toHTMLNode c w = (c', w1)"
    by (cases "toHTMLNode c w")
  have a: "calls w1 = calls w"
    using "3.IH"(1) t by simp
  have b: "calls (snd (appendAll d cs (appendChild d (length (nodes w)) w1))) = calls w1"
    using "3.IH"(2) [of c' w1] t by simp
  show ?case
    using t a b by (auto split: prod.splits)
qed

lemma toHTMLNode_dom_ref:
  "dom_ref (fst (toHTMLNode v w)) = Some (length (nodes w))"
  by (cases v) (simp add: Let_def split: prod.splits)

lemma bindE_Inr_iff: "bindE m f = Inr y \<longleftrightarrow> (\<exists>x. m = Inr x \<and> f x = Inr y)"
  by (cases m) (simp_all add: bindE_def)

section \<open>Facts about confinement\<close>

lemma length_updNode [simp]: "length (nodes (updNode d f w)) = length (nodes w)"
  by (simp add: updNode_def)

lemma nth_updNode:
  "nodes (updNode d f w) ! e = (if e = d \<and> d < length (nodes w) then f (nodes w ! d) else nodes w ! e)"
  by (simp add: updNode_def)

lemma samePayload_refl [simp]: "samePayload a a"
  by (simp add: samePayload_def)

lemma samePayload_trans: "samePayload a b \<Longrightarrow> samePayload b c \<Longrightarrow> samePayload a c"
  by (simp add: samePayload_def)

lemma confined_refl [simp]: "confined D w w"
  by (simp add: confined_def)

lemma confined_trans:
  assumes "confined D a b" and "confined D b c"
  shows "confined D a c"
proof -
  obtain cs where cs: "calls b = calls a @ cs" "\<forall>c e. c \<in> set cs \<and> target c = Some e \<longrightarrow> e \<in> D"
    using assms(1) by (auto simp: confined_def)
  obtain ds where ds: "calls c = calls b @ ds" "\<forall>c e. c \<in> set ds \<and> target c = Some e \<longrightarrow> e \<in> D"
    using assms(2) by (auto simp: confined_def)
  have len: "length (nodes a) \<le> length (nodes b)" "length (nodes b) \<le> length (nodes c)"
    using assms by (auto simp: confined_def)
  have pay: "samePayload (nodes c ! e) (nodes a ! e)" if "e < length (nodes a)" "e \<notin> D" for e
  proof -
    have "samePayload (nodes b ! e) (nodes a ! e)"
      using assms(1) that by (simp add: confined_def)
    moreover have "samePayload (nodes c ! e) (nodes b ! e)"
      using assms(2) that len by (simp add: confined_def)
    ultimately show ?thesis
      by (rule samePayload_trans [rotated])
  qed
  have "calls c = calls a @ (cs @ ds)"
    using cs ds by simp
  moreover have "\<forall>x e. x \<in> set (cs @ ds) \<and> target x = Some e \<longrightarrow> e \<in> D"
    using cs ds by auto
  ultimately have "\<exists>es. calls c = calls a @ es \<and> (\<forall>x e. x \<in> set es \<and> target x = Some e \<longrightarrow> e \<in> D)"
    by blast
  then show ?thesis
    using len pay by (simp add: confined_def)
qed



lemma confined_logCall:
  "(\<And>e. target c = Some e \<Longrightarrow> e \<in> D) \<Longrightarrow> confined D w (logCall c w)"
  by (auto simp: confined_def)

lemma confined_updNode_in: "d \<in> D \<Longrightarrow> confined D w (updNode d f w)"
  by (auto simp: confined_def nth_updNode)











section \<open>The reconciler only touches the live nodes of the previous tree\<close>

lemma forEach_rel:
  assumes refl: "\<And>a. R a a"
    and trans: "\<And>a b c. R a b \<Longrightarrow> R b c \<Longrightarrow> R a c"
    and step: "\<And>x a b. x \<in> set xs \<Longrightarrow> f x a = Inr b \<Longrightarrow> R a b"
    and run: "forEach xs f w = Inr w'"
  shows "R w w'"
  using step run
proof (induction xs arbitrary: w)
  case Nil
  then show ?case by (simp add: refl)
next
  case (Cons x xs)
  from Cons.prems(2) obtain w1 where 1: "f x w = Inr w1" and 2: "forEach xs f w1 = Inr w'"
    by (auto simp: bindE_Inr_iff)
  have "R w w1"
    by (rule Cons.prems(1) [OF _ 1]) simp
  moreover have "R w1 w'"
    by (rule Cons.IH [OF _ 2], rule Cons.prems(1)) simp_all
  ultimately show ?case
    by (rule trans)
qed

lemma forEach_confined:
  assumes "\<And>x a b. x \<in> set xs \<Longrightarrow> f x a = Inr b \<Longrightarrow> confined D a b"
    and "forEach xs f w = Inr w'"
  shows "confined D w w'"
  by (rule forEach_rel [where R = "confined D" and f = f and xs = xs])
     (auto intro: assms confined_trans)

lemma confined_setStyle: "confined {d} w (logCall (StyleSet d k s) w)"
  by (rule confined_logCall) simp

lemma confined_setAttribute: "confined {d} w (setAttribute d k s (logCall (SetAttribute d k s) w))"
  unfolding setAttribute_def
  by (rule confined_trans [OF confined_logCall confined_updNode_in]) simp_all

lemma confined_removeAttribute: "confined {d} w (removeAttribute d k (logCall (RemoveAttribute d k) w))"
  unfolding removeAttribute_def
  by (rule confined_trans [OF confined_logCall confined_updNode_in]) simp_all

lemma confined_addEventListener:
  "confined {d} w (addEventListener d i h (logCall (AddEventListener d i h) w))"
  unfolding addEventListener_def
  by (rule confined_trans [OF confined_logCall confined_updNode_in]) simp_all

lemma confined_removeEventListener:
  "confined {d} w (removeEventListener d i h (logCall (RemoveEventListener d i h) w))"
proof (cases h)
  case None
  then show ?thesis
    by (auto simp: removeEventListener_def intro: confined_logCall)
next
  case (Some x)
  then show ?thesis
    unfolding removeEventListener_def
    by (simp, intro confined_trans [OF confined_logCall confined_updNode_in]) simp_all
qed

lemma domOf_Inr_iff: "domOf v = Inr d \<longleftrightarrow> dom_ref v = Some d"
  by (simp add: domOf_def split: option.splits)

lemma confined_clearStyles:
  "clearStyles lastVNode vNode w = Inr w' \<Longrightarrow> confined (set_option (dom_ref lastVNode)) w w'"
  unfolding clearStyles_def
  by (erule forEach_confined [rotated])
     (auto simp: bindE_Inr_iff domOf_Inr_iff confined_setStyle split: if_splits)

lemma confined_writeStyles:
  "writeStyles lastVNode vNode w = Inr w' \<Longrightarrow> confined (set_option (dom_ref lastVNode)) w w'"
  unfolding writeStyles_def
  by (erule forEach_confined [rotated])
     (auto simp: bindE_Inr_iff domOf_Inr_iff confined_setStyle split: if_splits option.splits)

lemma confined_removeAttributes:
  "removeAttributes lastVNode vNode w = Inr w' \<Longrightarrow> confined (set_option (dom_ref lastVNode)) w w'"
  unfolding removeAttributes_def
  by (erule forEach_confined [rotated])
     (auto simp: bindE_Inr_iff domOf_Inr_iff confined_removeAttribute split: if_splits)

lemma confined_writeAttributes:
  "writeAttributes lastVNode vNode w = Inr w' \<Longrightarrow> confined (set_option (dom_ref lastVNode)) w w'"
  unfolding writeAttributes_def
  by (erule forEach_confined [rotated])
     (auto simp: bindE_Inr_iff domOf_Inr_iff confined_setAttribute split: if_splits option.splits)

lemma confined_detachHandlers:
  "detachHandlers lastVNode vNode w = Inr w' \<Longrightarrow> confined (set_option (dom_ref lastVNode)) w w'"
  unfolding detachHandlers_def
  by (erule forEach_confined [rotated], erule forEach_confined [rotated])
     (auto simp: bindE_Inr_iff domOf_Inr_iff Let_def confined_removeEventListener)

lemma confined_attachHandlers:
  "attachHandlers lastVNode vNode w = Inr w' \<Longrightarrow> confined (set_option (dom_ref lastVNode)) w w'"
  unfolding attachHandlers_def
  by (erule forEach_confined [rotated], erule forEach_confined [rotated])
     (auto simp: bindE_Inr_iff domOf_Inr_iff confined_addEventListener split: if_splits)








section \<open>The calls that the six loops make\<close>

lemma emits_refl [simp]: "emits P [] w w"
  by (simp add: emits_def)

lemma emits_trans: "emits P cs a b \<Longrightarrow> emits P ds b c \<Longrightarrow> emits P (cs @ ds) a c"
  by (auto simp: emits_def)

lemma emits_calls: "calls w' = calls w @ ds \<Longrightarrow> emits P (filter P ds) w w'"
  by (auto simp: emits_def)

lemma emits_logCall: "emits P (filter P [c]) w (logCall c w)"
  by (rule emits_calls) simp

lemma forEach_cong:
  "(\<And>x a. x \<in> set xs \<Longrightarrow> f x a = g x a) \<Longrightarrow> forEach xs f w = forEach xs g w"
proof (induction xs arbitrary: w)
  case Nil
  show ?case by simp
next
  case (Cons x xs)
  have "forEach xs f a = forEach xs g a" for a
    by (rule Cons.IH) (simp add: Cons.prems)
  then have "forEach xs f = forEach xs g"
    by (rule ext)
  then show ?case
    by (simp add: Cons.prems)
qed

lemma forEach_noop:
  "(\<And>x a. x \<in> set xs \<Longrightarrow> f x a = Inr a) \<Longrightarrow> forEach xs f w = Inr w"
  by (induction xs) (simp_all add: bindE_def)

text \<open>A loop whose every step returns and makes the calls \<open>L x\<close>.\<close>

lemma forEach_calls:
  assumes "\<And>x a. x \<in> set xs \<Longrightarrow> \<exists>b. f x a = Inr b \<and> calls b = calls a @ L x"
  shows "\<exists>w'. forEach xs f w = Inr w' \<and> calls w' = calls w @ concat (map L xs)"
  using assms
proof (induction xs arbitrary: w)
  case Nil
  show ?case by simp
next
  case (Cons x xs)
  obtain w1 where 1: "f x w = Inr w1" "calls w1 = calls w @ L x"
    using Cons.prems [of x w] by auto
  obtain w' where 2: "forEach xs f w1 = Inr w'" "calls w' = calls w1 @ concat (map L xs)"
    using Cons.IH [of w1] Cons.prems by auto
  show ?case
    using 1 2 by (simp add: bindE_def)
qed

lemma concat_map_if:
  "concat (map (\<lambda>x. if C x then [g x] else []) xs) = map g (filter C xs)"
  by (induction xs) simp_all

lemma set_forIn: "set (forIn obj) = fst ` set obj"
  by (auto simp: forIn_def Let_def)

lemma forIn_map_of: "k \<in> set (forIn obj) \<longleftrightarrow> map_of obj k \<noteq> None"
  by (simp add: set_forIn map_of_eq_None_iff)





lemma detachHandlers_calls:
  assumes "dom_ref lastVNode = Some d"
  shows "\<exists>w'. detachHandlers lastVNode vNode w = Inr w' \<and>
           calls w' = calls w @
             concat (map (\<lambda>i. map (\<lambda>j. RemoveEventListener d i (nthOpt (handlersOf (events lastVNode) i) j))
                                [0 ..< length (handlersOf (events vNode) i)])
                      (forIn (events lastVNode)))"
  unfolding detachHandlers_def
proof (rule forEach_calls)
  fix i a
  have "\<exists>b. forEach [0 ..< length (handlersOf (events vNode) i)]
              (\<lambda>j w. bindE (domOf lastVNode) (\<lambda>d.
                 let h = nthOpt (handlersOf (events lastVNode) i) j
                 in Inr (removeEventListener d i h (logCall (RemoveEventListener d i h) w)))) a = Inr b \<and>
            calls b = calls a @
              concat (map (\<lambda>j. [RemoveEventListener d i (nthOpt (handlersOf (events lastVNode) i) j)])
                         [0 ..< length (handlersOf (events vNode) i)])"
    by (rule forEach_calls)
       (simp add: assms domOf_def bindE_def Let_def removeEventListener_def split: option.splits)
  then show "\<exists>b. forEach [0 ..< length (handlersOf (events vNode) i)]
              (\<lambda>j w. bindE (domOf lastVNode) (\<lambda>d.
                 let h = nthOpt (handlersOf (events lastVNode) i) j
                 in Inr (removeEventListener d i h (logCall (RemoveEventListener d i h) w)))) a = Inr b \<and>
            calls b = calls a @
              map (\<lambda>j. RemoveEventListener d i (nthOpt (handlersOf (events lastVNode) i) j))
                  [0 ..< length (handlersOf (events vNode) i)]"
    by (simp add: concat_map_singleton)
qed

lemma attachHandlers_calls:
  assumes "dom_ref lastVNode = Some d"
  shows "\<exists>w'. attachHandlers lastVNode vNode w = Inr w' \<and>
           calls w' = calls w @
             concat (map (\<lambda>i. map (AddEventListener d i) (filter isFunction (handlersOf (events vNode) i)))
                      (forIn (events vNode)))"
  unfolding attachHandlers_def
proof (rule forEach_calls)
  fix i a
  have "\<exists>b. forEach (handlersOf (events vNode) i)
              (\<lambda>h w. if isFunction h
                 then bindE (domOf lastVNode) (\<lambda>d.
                        Inr (addEventListener d i h (logCall (AddEventListener d i h) w)))
                 else Inr w) a = Inr b \<and>
            calls b = calls a @
              concat (map (\<lambda>h. if isFunction h then [AddEventListener d i h] else [])
                         (handlersOf (events vNode) i))"
    by (rule forEach_calls) (simp add: assms domOf_def bindE_def addEventListener_def)
  then show "\<exists>b. forEach (handlersOf (events vNode) i)
              (\<lambda>h w. if isFunction h
                 then bindE (domOf lastVNode) (\<lambda>d.
                        Inr (addEventListener d i h (logCall (AddEventListener d i h) w)))
                 else Inr w) a = Inr b \<and>
            calls b = calls a @ map (AddEventListener d i) (filter isFunction (handlersOf (events vNode) i))"
    by (simp add: concat_map_if)
qed

section \<open>A tree against a copy of itself\<close>

lemma hasKey_own: "map_of obj k \<noteq> None \<Longrightarrow> hasKey k obj"
  by (simp add: hasKey_def)

lemma sameString_refl: "map_of S k \<noteq> None \<Longrightarrow> sameString k S S"
  by (auto simp: sameString_def getProp_def)

lemma clearStyles_same:
  "styles vNode = styles lastVNode \<Longrightarrow> clearStyles lastVNode vNode w = Inr w"
  unfolding clearStyles_def
  by (rule forEach_noop) (simp add: forIn_map_of hasKey_own)

lemma writeStyles_same:
  "styles vNode = styles lastVNode \<Longrightarrow> writeStyles lastVNode vNode w = Inr w"
  unfolding writeStyles_def
  by (rule forEach_noop) (simp add: forIn_map_of hasKey_own sameString_refl)

lemma removeAttributes_same:
  "attributes vNode = attributes lastVNode \<Longrightarrow> removeAttributes lastVNode vNode w = Inr w"
  unfolding removeAttributes_def
  by (rule forEach_noop) (simp add: forIn_map_of hasKey_own)

lemma writeAttributes_same:
  "attributes vNode = attributes lastVNode \<Longrightarrow> writeAttributes lastVNode vNode w = Inr w"
  unfolding writeAttributes_def
  by (rule forEach_noop) (simp add: forIn_map_of hasKey_own sameString_refl)

lemma map_nthOpt: "map (\<lambda>j. f (nthOpt hs j)) [0 ..< length hs] = map (\<lambda>h. f (Some h)) hs"
  by (rule nth_equalityI) (simp_all add: nthOpt_def)

lemma erase_fields:
  assumes "erase a = erase b"
  shows "tag a = tag b" "type a = type b" "styles a = styles b" "events a = events b"
    "attributes a = attributes b" "map erase (body a) = map erase (body b)"
  using assms by (cases a; cases b; simp)+

lemma bound_fields: "bound v \<Longrightarrow> dom_ref v \<noteq> None \<and> list_all bound (body v)"
  by (cases v) simp

lemma handlerCalls_eq:
  "handlerCalls v =
     (if type v = Text then []
      else (case dom_ref v of None \<Rightarrow> []
            | Some d \<Rightarrow>
                concat (map (\<lambda>i. map (\<lambda>h. RemoveEventListener d i (Some h)) (handlersOf (events v) i))
                         (forIn (events v))) @
                concat (map (\<lambda>i. map (AddEventListener d i) (filter isFunction (handlersOf (events v) i)))
                         (forIn (events v))))
           @ concat (map handlerCalls (body v)))"
  by (cases v) (simp split: option.splits)

lemma handlerCalls_are_handler_calls: "c \<in> set (handlerCalls v) \<Longrightarrow> isHandlerCall c"
proof (induction v arbitrary: c rule: handlerCalls.induct)
  case (1 tg ty k st ev at b dm vw)
  then show ?case
    by (auto split: if_splits option.splits)
qed

lemma positional_emits:
  assumes "\<And>p n v. p \<in> set ps \<Longrightarrow> erase n = erase p \<Longrightarrow> bound p \<Longrightarrow>
             \<exists>r v'. rec p n v = Inr (r, v') \<and> emits P (L p) v v'"
    and "map erase ns = map erase ps"
    and "list_all bound ps"
  shows "\<exists>ns' w'. positional rec ps ns w = Inr (ns', w') \<and> emits P (concat (map L ps)) w w'"
  using assms
proof (induction ps arbitrary: ns w)
  case Nil
  then show ?case by simp
next
  case (Cons p ps)
  from Cons.prems(2) obtain n ns1 where ns: "ns = n # ns1" "erase n = erase p"
    "map erase ns1 = map erase ps"
    by (cases ns) auto
  obtain r w1 where 1: "rec p n w = Inr (r, w1)" "emits P (L p) w w1"
    using Cons.prems(1) [of p n w] ns(2) Cons.prems(3) by auto
  have "\<exists>ns' w'. positional rec ps ns1 w1 = Inr (ns', w') \<and> emits P (concat (map L ps)) w1 w'"
    by (rule Cons.IH [OF _ ns(3)]) (use Cons.prems in auto)
  then obtain ns' w' where 2: "positional rec ps ns1 w1 = Inr (ns', w')"
    "emits P (concat (map L ps)) w1 w'"
    by blast
  show ?case
    using ns(1) 1(1) 2(1) emits_trans [OF 1(2) 2(2)] by (auto simp: bindE_def)
qed

text \<open>
  Against a copy of itself, a committed tree is reconciled without an error; the style,
  attribute and handler calls made are the handler calls of \<open>handlerCalls\<close>.
\<close>

lemma identical_tree_calls:
  "erase vNode = erase lastVNode \<Longrightarrow> bound lastVNode \<Longrightarrow>
   \<exists>vNode' w'. updateVNodeDOM lastVNode vNode w = Inr (vNode', w') \<and>
     emits (\<lambda>c. styleOrAttributeCall c \<or> isHandlerCall c) (handlerCalls lastVNode) w w'"
proof (induction lastVNode vNode w rule: updateVNodeDOM.induct)
  case (1 lastVNode vNode w)
  let ?P = "\<lambda>c. styleOrAttributeCall c \<or> isHandlerCall c"
  note f = erase_fields [OF "1.prems"(1)]
  obtain d where d: "dom_ref lastVNode = Some d" and bb: "list_all bound (body lastVNode)"
    using bound_fields [OF "1.prems"(2)] by auto
  show ?case
  proof (cases "rebuildCase lastVNode vNode")
    case True
    then have tx: "type lastVNode = Text"
      using f(1,2) by (auto simp: rebuildCase_def)
    obtain v1 w1 where t: "toHTMLNode vNode (logCall (ToHTMLNode (length (nodes w))) w) = (v1, w1)"
      by (cases "toHTMLNode vNode (logCall (ToHTMLNode (length (nodes w))) w)")
    have c1: "calls w1 = calls w @ [ToHTMLNode (length (nodes w))]"
      using toHTMLNode_calls(1) [of vNode "logCall (ToHTMLNode (length (nodes w))) w"] t by simp
    let ?w' = "replaceWith d (length (nodes w)) (logCall (ReplaceWith d (length (nodes w))) w1)"
    have "updateVNodeDOM lastVNode vNode w = Inr (v1, ?w')"
      using True d t
      by (simp add: updateVNodeDOM.simps [of lastVNode vNode w] rebuildCase_def bindE_def domOf_def)
    moreover have "emits ?P (handlerCalls lastVNode) w ?w'"
      using c1 tx by (simp add: emits_def handlerCalls_eq [of lastVNode])
    ultimately show ?thesis
      by blast
  next
    case False
    then have nr: "\<not> (tag lastVNode \<noteq> tag vNode \<or> type lastVNode = Text \<or> type vNode = Text)"
      by (simp add: rebuildCase_def)
    have s1: "clearStyles lastVNode vNode w = Inr w"
      and s2: "writeStyles lastVNode vNode w = Inr w"
      using f(3) by (simp_all add: clearStyles_same writeStyles_same)
    let ?D = "concat (map (\<lambda>i. map (\<lambda>h. RemoveEventListener d i (Some h)) (handlersOf (events lastVNode) i))
                       (forIn (events lastVNode)))"
    let ?A = "concat (map (\<lambda>i. map (AddEventListener d i) (filter isFunction (handlersOf (events lastVNode) i)))
                       (forIn (events lastVNode)))"
    obtain w3 where s3: "detachHandlers lastVNode vNode w = Inr w3" and c3: "calls w3 = calls w @ ?D"
      using detachHandlers_calls [OF d, of vNode w] by (auto simp: f(4) map_nthOpt)
    obtain w4 where s4: "attachHandlers lastVNode vNode w3 = Inr w4" and c4: "calls w4 = calls w3 @ ?A"
      using attachHandlers_calls [OF d, of vNode w3] by (auto simp: f(4))
    have s5: "removeAttributes lastVNode vNode w4 = Inr w4"
      and s6: "writeAttributes lastVNode vNode w4 = Inr w4"
      using f(5) by (simp_all add: removeAttributes_same writeAttributes_same)
    have len: "\<not> length (body lastVNode) \<noteq> length (body vNode)"
      using f(6) by (metis length_map)
    have "\<exists>nb w8. positional (\<lambda>p n v. updateVNodeDOM p n v) (body lastVNode) (body vNode) w4 = Inr (nb, w8)
            \<and> emits ?P (concat (map handlerCalls (body lastVNode))) w4 w8"
      by (rule positional_emits [OF _ f(6) bb]) (rule "1.IH"(2) [OF nr s1 s2 s3 s4 s5 s6 len])
    then obtain nb w8 where
      po: "positional (\<lambda>p n v. updateVNodeDOM p n v) (body lastVNode) (body vNode) w4 = Inr (nb, w8)"
      and q8: "emits ?P (concat (map handlerCalls (body lastVNode))) w4 w8"
      by blast
    let ?w' = "case view vNode of None \<Rightarrow> w8 | Some v \<Rightarrow> logCall (HandleInvalidation v) w8"
    have q9: "emits ?P [] w8 ?w'"
      by (auto split: option.splits simp: emits_def)
    have "filter ?P (?D @ ?A) = ?D @ ?A"
      by (rule filter_True) auto
    then have q4: "emits ?P (?D @ ?A) w w4"
      using c3 c4 by (simp add: emits_def)
    have "updateVNodeDOM lastVNode vNode w =
            Inr (VNode (tag vNode) (type vNode) (key vNode) (styles vNode) (events vNode)
                   (attributes vNode) nb (dom_ref lastVNode) (view vNode), ?w')"
      using nr s1 s2 s3 s4 s5 s6 len po
      by (simp add: updateVNodeDOM.simps [of lastVNode vNode w] bindE_def)
    moreover have "emits ?P (handlerCalls lastVNode) w ?w'"
      using emits_trans [OF q4 emits_trans [OF q8 q9]] nr d
      by (simp add: handlerCalls_eq [of lastVNode])
    ultimately show ?thesis
      by blast
  qed
qed

section \<open>The diffing loops keep the structure of the live tree\<close>

lemma shape_length: "shape w' = shape w \<Longrightarrow> length (nodes w') = length (nodes w)"
  unfolding shape_def by (drule arg_cong [where f = length]) simp

lemma shape_nth:
  assumes "shape w' = shape w" and "e < length (nodes w)"
  shows "childNodes (nodes w' ! e) = childNodes (nodes w ! e)"
    and "parentNode (nodes w' ! e) = parentNode (nodes w ! e)"
proof -
  have l: "e < length (nodes w')"
    using assms(2) shape_length [OF assms(1)] by simp
  have "shape w' ! e = shape w ! e"
    using assms by simp
  then have "(childNodes (nodes w' ! e), parentNode (nodes w' ! e)) =
             (childNodes (nodes w ! e), parentNode (nodes w ! e))"
    using l assms(2) by (simp add: shape_def)
  then show "childNodes (nodes w' ! e) = childNodes (nodes w ! e)"
    and "parentNode (nodes w' ! e) = parentNode (nodes w ! e)"
    by simp_all
qed

lemma shape_parentOf:
  assumes "shape w' = shape w"
  shows "parentOf w' e = parentOf w e"
  using shape_length [OF assms] shape_nth(2) [OF assms, of e] by (simp add: parentOf_def)

lemma shape_childrenOf:
  assumes "shape w' = shape w" and "e < length (nodes w)"
  shows "childrenOf w' e = childrenOf w e"
  using shape_nth(1) [OF assms] by (simp add: childrenOf_def)

lemma shape_logCall [simp]: "shape (logCall c w) = shape w"
  by (simp add: shape_def)

lemma shape_updNode:
  assumes "\<And>n. childNodes (f n) = childNodes n \<and> parentNode (f n) = parentNode n"
  shows "shape (updNode d f w) = shape w"
proof (cases "d < length (nodes w)")
  case False
  then show ?thesis by (simp add: updNode_def)
next
  case True
  let ?g = "\<lambda>n. (childNodes n, parentNode n)"
  have "map ?g ((nodes w)[d := f (nodes w ! d)]) = (map ?g (nodes w))[d := ?g (nodes w ! d)]"
    by (simp add: map_update assms)
  also have "\<dots> = (map ?g (nodes w))[d := map ?g (nodes w) ! d]"
    using True by simp
  also have "\<dots> = map ?g (nodes w)"
    by (rule list_update_id)
  finally show ?thesis
    using True by (simp add: shape_def updNode_def)
qed

lemma forEach_shape:
  assumes "\<And>x a b. x \<in> set xs \<Longrightarrow> f x a = Inr b \<Longrightarrow> shape b = shape a"
    and "forEach xs f w = Inr w'"
  shows "shape w' = shape w"
  by (rule forEach_rel [where R = "\<lambda>a b. shape b = shape a" and f = f and xs = xs and w = w])
     (auto intro: assms)

lemma shape_clearStyles: "clearStyles lastVNode vNode w = Inr w' \<Longrightarrow> shape w' = shape w"
  unfolding clearStyles_def
  by (erule forEach_shape [rotated])
     (auto simp: bindE_Inr_iff split: if_splits)

lemma shape_writeStyles: "writeStyles lastVNode vNode w = Inr w' \<Longrightarrow> shape w' = shape w"
  unfolding writeStyles_def
  by (erule forEach_shape [rotated])
     (auto simp: bindE_Inr_iff split: if_splits option.splits)

lemma shape_removeAttributes: "removeAttributes lastVNode vNode w = Inr w' \<Longrightarrow> shape w' = shape w"
  unfolding removeAttributes_def
  by (erule forEach_shape [rotated])
     (auto simp: bindE_Inr_iff removeAttribute_def shape_updNode split: if_splits)

lemma shape_writeAttributes: "writeAttributes lastVNode vNode w = Inr w' \<Longrightarrow> shape w' = shape w"
  unfolding writeAttributes_def
  by (erule forEach_shape [rotated])
     (auto simp: bindE_Inr_iff setAttribute_def shape_updNode split: if_splits option.splits)

lemma shape_detachHandlers: "detachHandlers lastVNode vNode w = Inr w' \<Longrightarrow> shape w' = shape w"
  unfolding detachHandlers_def
  by (erule forEach_shape [rotated], erule forEach_shape [rotated])
     (auto simp: bindE_Inr_iff Let_def removeEventListener_def shape_updNode split: option.splits)

lemma shape_attachHandlers: "attachHandlers lastVNode vNode w = Inr w' \<Longrightarrow> shape w' = shape w"
  unfolding attachHandlers_def
  by (erule forEach_shape [rotated], erule forEach_shape [rotated])
     (auto simp: bindE_Inr_iff addEventListener_def shape_updNode split: if_splits)

text \<open>What the in-place path leaves before it turns to the children.\<close>

lemma in_place_steps:
  assumes "\<not> rebuildCase lastVNode vNode"
    and "updateVNodeDOM lastVNode vNode w = Inr (vNode', w')"
  shows "\<exists>w6 nb w8 cs.
           shape w6 = shape w \<and> calls w6 = calls w @ cs \<and>
           (if length (body lastVNode) \<noteq> length (body vNode)
            then bindE (keyedPrev (\<lambda>p n v. updateVNodeDOM p n v) (body lastVNode) (body vNode) [] w6)
                   (\<lambda>(nb, ks, w7). placeNew lastVNode ks None nb w7)
            else positional (\<lambda>p n v. updateVNodeDOM p n v) (body lastVNode) (body vNode) w6)
             = Inr (nb, w8) \<and>
           vNode' = VNode (tag vNode) (type vNode) (key vNode) (styles vNode) (events vNode)
                      (attributes vNode) nb (dom_ref lastVNode) (view vNode) \<and>
           w' = (case view vNode of None \<Rightarrow> w8 | Some v \<Rightarrow> logCall (HandleInvalidation v) w8)"
proof -
  have nr: "\<not> (tag lastVNode \<noteq> tag vNode \<or> type lastVNode = Text \<or> type vNode = Text)"
    using assms(1) by (simp add: rebuildCase_def)
  from nr assms(2) obtain w1 w2 w3 w4 w5 w6 nb w8 where
    s1: "clearStyles lastVNode vNode w = Inr w1" and
    s2: "writeStyles lastVNode vNode w1 = Inr w2" and
    s3: "detachHandlers lastVNode vNode w2 = Inr w3" and
    s4: "attachHandlers lastVNode vNode w3 = Inr w4" and
    s5: "removeAttributes lastVNode vNode w4 = Inr w5" and
    s6: "writeAttributes lastVNode vNode w5 = Inr w6" and
    ch: "(if length (body lastVNode) \<noteq> length (body vNode)
          then bindE (keyedPrev (\<lambda>p n v. updateVNodeDOM p n v) (body lastVNode) (body vNode) [] w6)
                 (\<lambda>(nb, ks, w7). placeNew lastVNode ks None nb w7)
          else positional (\<lambda>p n v. updateVNodeDOM p n v) (body lastVNode) (body vNode) w6)
         = Inr (nb, w8)" and
    v: "vNode' = VNode (tag vNode) (type vNode) (key vNode) (styles vNode) (events vNode)
                      (attributes vNode) nb (dom_ref lastVNode) (view vNode)" and
    fin: "w' = (case view vNode of None \<Rightarrow> w8 | Some v \<Rightarrow> logCall (HandleInvalidation v) w8)"
    by (auto simp: updateVNodeDOM.simps [of lastVNode vNode w] bindE_Inr_iff simp del: not_None_eq)
  have sh: "shape w6 = shape w"
    using shape_clearStyles [OF s1] shape_writeStyles [OF s2] shape_detachHandlers [OF s3]
      shape_attachHandlers [OF s4] shape_removeAttributes [OF s5] shape_writeAttributes [OF s6]
    by simp
  have "confined (set_option (dom_ref lastVNode)) w w6"
    by (intro confined_trans [OF confined_clearStyles [OF s1]]
              confined_trans [OF confined_writeStyles [OF s2]]
              confined_trans [OF confined_detachHandlers [OF s3]]
              confined_trans [OF confined_attachHandlers [OF s4]]
              confined_trans [OF confined_removeAttributes [OF s5]]
              confined_writeAttributes [OF s6])
  then obtain cs where "calls w6 = calls w @ cs"
    by (auto simp: confined_def)
  with sh ch v fin show ?thesis
    by blast
qed

text \<open>The in-place path on a pair of childless nodes.\<close>

lemma in_place_leaf:
  assumes "\<not> rebuildCase lastVNode vNode" and "body lastVNode = []" and "body vNode = []"
    and "updateVNodeDOM lastVNode vNode w = Inr (vNode', w')"
  shows "shape w' = shape w \<and> (\<exists>cs. calls w' = calls w @ cs) \<and>
         dom_ref vNode' = dom_ref lastVNode \<and> key vNode' = key vNode \<and> view vNode' = view vNode"
proof -
  from in_place_steps [OF assms(1,4)] obtain w6 nb w8 cs where
    sh: "shape w6 = shape w" and c: "calls w6 = calls w @ cs" and
    ch: "positional (\<lambda>p n v. updateVNodeDOM p n v) [] [] w6 = Inr (nb, w8)" and
    v: "vNode' = VNode (tag vNode) (type vNode) (key vNode) (styles vNode) (events vNode)
                      (attributes vNode) nb (dom_ref lastVNode) (view vNode)" and
    fin: "w' = (case view vNode of None \<Rightarrow> w8 | Some v \<Rightarrow> logCall (HandleInvalidation v) w8)"
    using assms(2,3) by auto
  have "w8 = w6"
    using ch by simp
  then show ?thesis
    using sh c v fin by (auto split: option.splits)
qed

section \<open>Materializing a node\<close>

lemma parentOf_updNode:
  "parentOf (updNode d f w) e =
     (if e = d \<and> d < length (nodes w) then parentNode (f (nodes w ! d)) else parentOf w e)"
  by (simp add: parentOf_def nth_updNode)

lemma detach_orphan: "parentOf w c = None \<Longrightarrow> detach c w = w"
  by (simp add: detach_def)

text \<open>Materializing a node adds live nodes and leaves every existing one as it is; the root
  of the new subtree has no parent.\<close>

lemma toHTMLNode_keeps:
  "length (nodes w) < length (nodes (snd (toHTMLNode v w))) \<and>
   (\<forall>e. e < length (nodes w) \<longrightarrow> nodes (snd (toHTMLNode v w)) ! e = nodes w ! e) \<and>
   parentNode (nodes (snd (toHTMLNode v w)) ! length (nodes w)) = None"
  "d < length (nodes w) \<Longrightarrow>
   length (nodes w) \<le> length (nodes (snd (appendAll d cs w))) \<and>
   (\<forall>e. e < length (nodes w) \<and> e \<noteq> d \<longrightarrow> nodes (snd (appendAll d cs w)) ! e = nodes w ! e) \<and>
   parentNode (nodes (snd (appendAll d cs w)) ! d) = parentNode (nodes w ! d)"
proof (induction v w and d cs w rule: toHTMLNode_appendAll.induct)
  case (1 tg ty k st ev at b dm vw w)
  show ?case
  proof (cases "ty = Text")
    case True
    then show ?thesis
      by (simp add: Let_def nth_append textNode_def)
  next
    case False
    let ?w0 = "w\<lparr>nodes := nodes w @ [elementNode (VNode tg ty k st ev at b dm vw)]\<rparr>"
    have d: "length (nodes w) < length (nodes ?w0)"
      by simp
    note ih = "1.IH" [OF refl False d]
    have r: "snd (toHTMLNode (VNode tg ty k st ev at b dm vw) w) = snd (appendAll (length (nodes w)) b ?w0)"
      using False by (simp add: Let_def split: prod.splits)
    show ?thesis
      unfolding r using ih by (auto simp: nth_append elementNode_def)
  qed
next
  case (2 d w)
  show ?case by simp
next
  case (3 d c cs w)
  obtain c' w1 where t: "toHTMLNode c w = (c', w1)"
    by (cases "toHTMLNode c w")
  let ?L = "length (nodes w)"
  have p: "?L < length (nodes w1)" "\<And>e. e < ?L \<Longrightarrow> nodes w1 ! e = nodes w ! e"
    "parentNode (nodes w1 ! ?L) = None"
    using "3.IH"(1) t by simp_all
  let ?w2 = "appendChild d ?L w1"
  have orphan: "parentOf w1 ?L = None"
    using p by (simp add: parentOf_def)
  have w2: "?w2 = updNode ?L (\<lambda>n. n\<lparr>parentNode := Some d\<rparr>)
                    (updNode d (\<lambda>n. n\<lparr>childNodes := insertAt ?L None (childNodes n)\<rparr>) w1)"
    by (simp add: appendChild_def insertBefore_def detach_orphan [OF orphan])
  have l2: "length (nodes ?w2) = length (nodes w1)"
    unfolding w2 by simp
  have n2: "\<And>e. e < ?L \<Longrightarrow> e \<noteq> d \<Longrightarrow> nodes ?w2 ! e = nodes w ! e"
    unfolding w2 using p by (simp add: nth_updNode)
  have pd: "parentNode (nodes ?w2 ! d) = parentNode (nodes w ! d)"
    unfolding w2 using p "3.prems" by (simp add: nth_updNode)
  have d2: "d < length (nodes ?w2)"
    using "3.prems" p l2 by simp
  note ih = "3.IH"(2) [OF t [symmetric] d2]
  have r: "snd (appendAll d (c # cs) w) = snd (appendAll d cs ?w2)"
    using t by (simp split: prod.splits)
  show ?case
    unfolding r using ih l2 p(1) n2 pd by auto
qed

lemma toHTMLNode_fields:
  "key (fst (toHTMLNode v w)) = key v" "view (fst (toHTMLNode v w)) = view v"
  by (cases v; simp add: Let_def split: prod.splits)+

section \<open>The keyed regime\<close>

lemma toDouble_small [simp]: "\<bar>n\<bar> < 2 ^ 53 \<Longrightarrow> toDouble n = n"
  by (simp add: toDouble_def)

lemma keyedPrev_found:
  "findKey p nb 0 = Some j \<Longrightarrow>
   keyedPrev rec (p # ps) nb ks w =
     bindE (rec p (nb ! j) w) (\<lambda>(n', w'). keyedPrev rec ps (nb[j := n']) (ks @ [key (nb ! j)]) w')"
  by simp

section \<open>Event handlers on the in-place path\<close>

text \<open>
  Claim C1 says that on the in-place path every handler attached for an event name of
  \<open>previous\<close> is detached, also when \<open>next\<close> does not list the event name or lists it
  with no handlers. The third loop of \<open>updateVNodeDOM\<close> runs its inner index over
  \<open>vNode.events[i]\<close>, not over \<open>lastVNode.events[i]\<close>: with a \<^verbatim>\<open>div\<close> whose live node
  listens to \<^verbatim>\<open>click\<close> with one function, and a next \<^verbatim>\<open>div\<close> that has no \<^verbatim>\<open>click\<close>
  entry (or an empty one), the call succeeds, makes no \<^verbatim>\<open>removeEventListener\<close> call and
  leaves the function attached to the live node.
\<close>

theorem C1_old_handler_stays_attached:
  "(case toHTMLNode clickOld emptyWorld of
      (lastVNode, w) \<Rightarrow>
        dom_ref lastVNode = Some 0 \<and> listenersOf w 0 = [(''click'', Function 1)] \<and>
        (case updateVNodeDOM lastVNode clickNone w of
           Inl e \<Rightarrow> False
         | Inr (vNode, w') \<Rightarrow>
             dom_ref vNode = Some 0 \<and> calls w' = [] \<and>
             listenersOf w' 0 = [(''click'', Function 1)]) \<and>
        (case updateVNodeDOM lastVNode clickEmpty w of
           Inl e \<Rightarrow> False
         | Inr (vNode, w') \<Rightarrow>
             dom_ref vNode = Some 0 \<and> calls w' = [] \<and>
             listenersOf w' 0 = [(''click'', Function 1)]))"
  by code_simp

section \<open>Rebuild or diff in place\<close>

text \<open>
  Claim C4, as stated, says that the previous live subtree is discarded and \<open>next\<close> built
  fresh exactly when the tags differ or exactly one of the two nodes has kind Text, and that
  two Text nodes are diffed in place. The code rebuilds as soon as either node is Text: a
  Text node under a \<^verbatim>\<open>div\<close>, reconciled against another Text node (both have no tag),
  gets a fresh live node, which takes the place of the old one in the live parent.
\<close>

theorem C4_two_text_nodes_are_rebuilt:
  "(case toHTMLNode textInDiv emptyWorld of
      (parent, w) \<Rightarrow>
        (case body parent of
           [lastVNode] \<Rightarrow>
             tag lastVNode = tag plainText \<and> type lastVNode = Text \<and> type plainText = Text \<and>
             dom_ref lastVNode = Some 1 \<and> childrenOf w 0 = [1] \<and>
             (case updateVNodeDOM lastVNode plainText w of
                Inl e \<Rightarrow> False
              | Inr (vNode, w') \<Rightarrow>
                  dom_ref vNode = Some 2 \<and> childrenOf w' 0 = [2] \<and>
                  calls w' = [ToHTMLNode 2, ReplaceWith 1 2])
         | _ \<Rightarrow> False))"
  by code_simp

text \<open>
  Claim C4, amended: for a previous node bound to an existing live node \<open>d\<close>,
  \<open>updateVNodeDOM\<close> rebuilds exactly when the tags differ or at least one of the two nodes
  has kind Text. In that case the call succeeds, \<open>next\<close> is bound to a live node that did
  not exist before, and the only calls the reconciler makes are the materialization of
  \<open>next\<close> and the replacement of \<open>d\<close> by the new node (no style, attribute or event
  call). In every other case a call that returns has bound \<open>next\<close> to \<open>d\<close> itself.
\<close>

theorem C4_rebuild_iff_tag_differs_or_some_text:
  assumes "dom_ref lastVNode = Some d" and "d < length (nodes w)"
  shows "(rebuildCase lastVNode vNode \<longrightarrow>
           (\<exists>vNode' w'. updateVNodeDOM lastVNode vNode w = Inr (vNode', w') \<and>
              dom_ref vNode' = Some (length (nodes w)) \<and> dom_ref vNode' \<noteq> Some d \<and>
              calls w' = calls w @ [ToHTMLNode (length (nodes w)), ReplaceWith d (length (nodes w))])) \<and>
         (\<not> rebuildCase lastVNode vNode \<longrightarrow>
           (\<forall>vNode' w'. updateVNodeDOM lastVNode vNode w = Inr (vNode', w') \<longrightarrow>
              dom_ref vNode' = Some d))"
proof (intro conjI impI allI)
  assume c: "rebuildCase lastVNode vNode"
  obtain v1 w1 where t: "toHTMLNode vNode (logCall (ToHTMLNode (length (nodes w))) w) = (v1, w1)"
    by (cases "toHTMLNode vNode (logCall (ToHTMLNode (length (nodes w))) w)")
  have d1: "dom_ref v1 = Some (length (nodes w))"
    using toHTMLNode_dom_ref [of vNode "logCall (ToHTMLNode (length (nodes w))) w"] t by simp
  have c1: "calls w1 = calls w @ [ToHTMLNode (length (nodes w))]"
    using toHTMLNode_calls(1) [of vNode "logCall (ToHTMLNode (length (nodes w))) w"] t by simp
  have "updateVNodeDOM lastVNode vNode w =
          Inr (v1, replaceWith d (length (nodes w)) (logCall (ReplaceWith d (length (nodes w))) w1))"
    using c assms(1) t
    by (simp add: updateVNodeDOM.simps [of lastVNode vNode w] rebuildCase_def bindE_def domOf_def)
  then show "\<exists>vNode' w'. updateVNodeDOM lastVNode vNode w = Inr (vNode', w') \<and>
              dom_ref vNode' = Some (length (nodes w)) \<and> dom_ref vNode' \<noteq> Some d \<and>
              calls w' = calls w @ [ToHTMLNode (length (nodes w)), ReplaceWith d (length (nodes w))]"
    using d1 c1 assms(2) by simp
next
  fix vNode' w'
  assume c: "\<not> rebuildCase lastVNode vNode"
    and u: "updateVNodeDOM lastVNode vNode w = Inr (vNode', w')"
  show "dom_ref vNode' = Some d"
    using c u assms(1)
    by (auto simp: updateVNodeDOM.simps [of lastVNode vNode w] rebuildCase_def bindE_def
             split: sum.splits if_splits prod.splits)
qed

text \<open>
  The theorem at the spec's example: a \<^verbatim>\<open>div\<close> against a \<^verbatim>\<open>span\<close> with the same
  children is rebuilt with two calls, and the \<^verbatim>\<open>div\<close> against itself keeps its live node.
\<close>

theorem C4_rebuild_iff_witness:
  "dom_ref (fst (toHTMLNode divTree emptyWorld)) = Some 0 \<and>
   0 < length (nodes (snd (toHTMLNode divTree emptyWorld))) \<and>
   rebuildCase (fst (toHTMLNode divTree emptyWorld)) spanTree \<and>
   (\<exists>vNode' w'.
      updateVNodeDOM (fst (toHTMLNode divTree emptyWorld)) spanTree (snd (toHTMLNode divTree emptyWorld))
        = Inr (vNode', w') \<and>
      dom_ref vNode' = Some 2 \<and> calls w' = [ToHTMLNode 2, ReplaceWith 0 2]) \<and>
   \<not> rebuildCase (fst (toHTMLNode divTree emptyWorld)) divTree \<and>
   (\<exists>vNode' w'.
      updateVNodeDOM (fst (toHTMLNode divTree emptyWorld)) divTree (snd (toHTMLNode divTree emptyWorld))
        = Inr (vNode', w') \<and>
      dom_ref vNode' = Some 0)"
proof -
  define l where "l = fst (toHTMLNode divTree emptyWorld)"
  define w where "w = snd (toHTMLNode divTree emptyWorld)"
  have h1: "dom_ref l = Some 0"
    unfolding l_def by code_simp
  have h2: "0 < length (nodes w)"
    unfolding w_def by code_simp
  have n: "length (nodes w) = 2" "calls w = []"
    unfolding w_def by code_simp+
  have r: "rebuildCase l spanTree"
    unfolding l_def by code_simp
  have nr: "\<not> rebuildCase l divTree"
    unfolding l_def by code_simp
  have "(case updateVNodeDOM l divTree w of Inl e \<Rightarrow> False | Inr r \<Rightarrow> True)"
    unfolding l_def w_def by code_simp
  then obtain v1 w1 where u: "updateVNodeDOM l divTree w = Inr (v1, w1)"
    by (cases "updateVNodeDOM l divTree w") auto
  show ?thesis
    using C4_rebuild_iff_tag_differs_or_some_text [OF h1 h2, of spanTree]
          C4_rebuild_iff_tag_differs_or_some_text [OF h1 h2, of divTree]
          h1 h2 r nr n u
    unfolding l_def [symmetric] w_def [symmetric]
    by auto
qed

section \<open>Styles on the in-place path\<close>










section \<open>Reconciling a tree against an identical copy\<close>

text \<open>
  Claim C3, as stated, says that reconciling a tree against an identical copy makes no
  style write, no attribute call and no event-handler detach or attach call. The third and
  fourth loops of \<open>updateVNodeDOM\<close> compare nothing: a \<^verbatim>\<open>div\<close> that lists one \<^verbatim>\<open>click\<close>
  function, reconciled against a copy of itself, has the function detached from its live node
  and attached again.
\<close>

theorem C3_identical_copy_reattaches_handlers:
  "(case toHTMLNode clickOld emptyWorld of
      (lastVNode, w) \<Rightarrow>
        erase clickOld = erase lastVNode \<and> calls w = [] \<and>
        (case updateVNodeDOM lastVNode clickOld w of
           Inl e \<Rightarrow> False
         | Inr (vNode, w') \<Rightarrow>
             calls w' = [RemoveEventListener 0 ''click'' (Some (Function 1)),
                         AddEventListener 0 ''click'' (Function 1)]))"
  by code_simp

text \<open>
  Claim C3, amended: for every committed tree (every node of it bound to a live node),
  \<open>updateVNodeDOM\<close> with the tree as \<open>previous\<close> and an identical copy as \<open>next\<close> returns;
  the calls it makes include no style write, no \<^verbatim>\<open>setAttribute\<close> and no
  \<^verbatim>\<open>removeAttribute\<close>; and the handler calls it makes are exactly those of
  \<open>handlerCalls\<close>: for every node that is not of kind Text and is not below a node of kind
  Text, in document order, every handler listed is detached from the live node of the node
  and then every function listed is attached to it again.
\<close>

theorem C3_identical_copy_only_handler_calls:
  assumes "erase vNode = erase lastVNode" and "bound lastVNode"
  shows "\<exists>vNode' w' cs. updateVNodeDOM lastVNode vNode w = Inr (vNode', w') \<and>
           calls w' = calls w @ cs \<and> filter styleOrAttributeCall cs = [] \<and>
           filter isHandlerCall cs = handlerCalls lastVNode"
proof -
  let ?P = "\<lambda>c. styleOrAttributeCall c \<or> isHandlerCall c"
  obtain vNode' w' cs where
    r: "updateVNodeDOM lastVNode vNode w = Inr (vNode', w')" and
    c: "calls w' = calls w @ cs" and
    f: "filter ?P cs = handlerCalls lastVNode"
    using identical_tree_calls [OF assms, of w] by (auto simp: emits_def)
  have h: "c \<in> set (handlerCalls lastVNode) \<Longrightarrow> isHandlerCall c \<and> \<not> styleOrAttributeCall c" for c
    using handlerCalls_are_handler_calls [of c lastVNode] by (cases c) auto
  have "filter styleOrAttributeCall cs = filter styleOrAttributeCall (filter ?P cs)"
    by (simp add: conj_commute cong: conj_cong)
  also have "\<dots> = []"
    unfolding f using h by (simp add: filter_empty_conv)
  finally have 1: "filter styleOrAttributeCall cs = []" .
  have "filter isHandlerCall cs = filter isHandlerCall (filter ?P cs)"
    by (simp add: conj_commute cong: conj_cong)
  also have "\<dots> = handlerCalls lastVNode"
    unfolding f using h by (intro filter_True) simp
  finally have 2: "filter isHandlerCall cs = handlerCalls lastVNode" .
  show ?thesis
    using r c 1 2 by blast
qed

text \<open>
  The theorem at a styled \<^verbatim>\<open>div\<close> that lists two functions and an object that is not a
  function for two event names, with a paragraph that has an attribute and lists one
  function, and a text.
\<close>

theorem C3_identical_copy_witness:
  "erase listeningTree = erase (fst (toHTMLNode listeningTree emptyWorld)) \<and>
   bound (fst (toHTMLNode listeningTree emptyWorld)) \<and>
   (\<exists>vNode' w' cs.
      updateVNodeDOM (fst (toHTMLNode listeningTree emptyWorld)) listeningTree
        (snd (toHTMLNode listeningTree emptyWorld)) = Inr (vNode', w') \<and>
      calls w' = calls (snd (toHTMLNode listeningTree emptyWorld)) @ cs \<and>
      filter styleOrAttributeCall cs = [] \<and>
      filter isHandlerCall cs =
        [RemoveEventListener 0 ''click'' (Some (Function 1)),
         RemoveEventListener 0 ''click'' (Some (NotFunction 2)),
         RemoveEventListener 0 ''keyup'' (Some (Function 3)),
         AddEventListener 0 ''click'' (Function 1),
         AddEventListener 0 ''keyup'' (Function 3),
         RemoveEventListener 1 ''click'' (Some (Function 4)),
         AddEventListener 1 ''click'' (Function 4)])"
proof -
  have h1: "erase listeningTree = erase (fst (toHTMLNode listeningTree emptyWorld))"
    by code_simp
  have h2: "bound (fst (toHTMLNode listeningTree emptyWorld))"
    by code_simp
  have h3: "handlerCalls (fst (toHTMLNode listeningTree emptyWorld)) =
        [RemoveEventListener 0 ''click'' (Some (Function 1)),
         RemoveEventListener 0 ''click'' (Some (NotFunction 2)),
         RemoveEventListener 0 ''keyup'' (Some (Function 3)),
         AddEventListener 0 ''click'' (Function 1),
         AddEventListener 0 ''keyup'' (Function 3),
         RemoveEventListener 1 ''click'' (Some (Function 4)),
         AddEventListener 1 ''click'' (Function 4)]"
    by code_simp
  show ?thesis
    using C3_identical_copy_only_handler_calls [OF h1 h2, of "snd (toHTMLNode listeningTree emptyWorld)"]
      h1 h2 unfolding h3 by blast
qed

section \<open>Keyed children: A, B against B, A, C\<close>

text \<open>
  Claim C2, as stated, says that with previous children \<open>[A(key=1), B(key=2)]\<close> and next
  children \<open>[B(key=2), A(key=1), C(key=3)]\<close> the live children end in the order B, A, C.
  The keyed regime reconciles a matched pair where the live node stands and never moves it;
  the node built for C is inserted after the live node of A. With elements \<^verbatim>\<open>a\<close>,
  \<^verbatim>\<open>b\<close>, \<^verbatim>\<open>c\<close> under a \<^verbatim>\<open>div\<close>, the live children end as \<^verbatim>\<open>a\<close>, \<^verbatim>\<open>c\<close>, \<^verbatim>\<open>b\<close>.
\<close>

theorem C2_live_order_is_A_C_B:
  "(case toHTMLNode keyedOld emptyWorld of
      (lastVNode, w) \<Rightarrow>
        map (\<lambda>e. nodeName (nodes w ! e)) (childrenOf w 0) = [''a'', ''b''] \<and>
        (case updateVNodeDOM lastVNode keyedNew w of
           Inl e \<Rightarrow> False
         | Inr (vNode, w') \<Rightarrow>
             map key (body vNode) = [KNum 2, KNum 1, KNum 3] \<and>
             map (\<lambda>e. nodeName (nodes w' ! e)) (childrenOf w' 0) = [''a'', ''c'', ''b''] \<and>
             map (\<lambda>e. nodeName (nodes w' ! e)) (childrenOf w' 0) \<noteq> [''b'', ''a'', ''c'']))"
  by code_simp

text \<open>
  Claim C2, amended: let a diffable pair have previous children \<open>[A, B]\<close> with keys 1 and 2
  and next children \<open>[B', A', C']\<close> with keys 2, 1 and 3, where A and A', and B and B', are
  diffable childless nodes, and let the live nodes \<open>a\<close> of A and \<open>b\<close> of B be the children
  \<open>[a, b]\<close> of the live node \<open>d\<close> of the parent. When \<open>updateVNodeDOM\<close> returns, the live
  children of \<open>d\<close> are \<open>a\<close>, the new node, \<open>b\<close>, in this order (A, C, B); A' and B' are
  bound to the live nodes \<open>a\<close> and \<open>b\<close> that A and B had; C' is bound to a live node that
  did not exist before, which was materialized, inserted under \<open>d\<close> before \<open>b\<close>, and
  followed by the post-mount hook of the View of C', if it has one.
\<close>

theorem C2_keyed_children:
  assumes pair: "\<not> rebuildCase lastVNode vNode"
    and bodies: "body lastVNode = [A, B]" "body vNode = [B', A', C']"
    and keys: "key A = KNum 1" "key B = KNum 2" "key A' = KNum 1" "key B' = KNum 2" "key C' = KNum 3"
    and leaves: "\<not> rebuildCase A A'" "\<not> rebuildCase B B'"
      "body A = []" "body A' = []" "body B = []" "body B' = []"
    and refs: "dom_ref lastVNode = Some d" "dom_ref A = Some a" "dom_ref B = Some b"
    and live: "d < length (nodes w)" "childrenOf w d = [a, b]" "parentOf w a = Some d" "a \<noteq> b"
    and run: "updateVNodeDOM lastVNode vNode w = Inr (vNode', w')"
  shows "childrenOf w' d = [a, length (nodes w), b] \<and>
         map dom_ref (body vNode') = [Some b, Some a, Some (length (nodes w))] \<and>
         parentOf w' (length (nodes w)) = Some d \<and>
         (\<exists>cs1 cs2. calls w' = calls w @ cs1 @
            [ToHTMLNode (length (nodes w)), InsertBefore d (length (nodes w)) (Some b)] @
            (case view C' of None \<Rightarrow> [] | Some v \<Rightarrow> [HandleMount v]) @ cs2)"
proof -
  let ?rec = "\<lambda>p n v. updateVNodeDOM p n v"
  let ?c = "length (nodes w)"
  from in_place_steps [OF pair run] obtain w6 nb w8 cs where
    sh6: "shape w6 = shape w" and c6: "calls w6 = calls w @ cs" and
    ch0: "(if length (body lastVNode) \<noteq> length (body vNode)
           then bindE (keyedPrev ?rec (body lastVNode) (body vNode) [] w6)
                  (\<lambda>(nb, ks, w7). placeNew lastVNode ks None nb w7)
           else positional ?rec (body lastVNode) (body vNode) w6) = Inr (nb, w8)" and
    v: "vNode' = VNode (tag vNode) (type vNode) (key vNode) (styles vNode) (events vNode)
                   (attributes vNode) nb (dom_ref lastVNode) (view vNode)" and
    fin: "w' = (case view vNode of None \<Rightarrow> w8 | Some v \<Rightarrow> logCall (HandleInvalidation v) w8)"
    by blast
  have ch: "bindE (keyedPrev ?rec [A, B] [B', A', C'] [] w6)
           (\<lambda>(nb, ks, w7). placeNew lastVNode ks None nb w7) = Inr (nb, w8)"
    using ch0 unfolding bodies by (simp del: keyedPrev.simps placeNew.simps)
  \<comment> \<open>the loop over the previous children pairs A with A' and B with B'\<close>
  have fA: "findKey A [B', A', C'] 0 = Some 1"
    using keys by simp
  from ch obtain nb1 ks w7 where
    kp: "keyedPrev ?rec [A, B] [B', A', C'] [] w6 = Inr (nb1, ks, w7)" and
    pl: "placeNew lastVNode ks None nb1 w7 = Inr (nb, w8)"
    unfolding bindE_Inr_iff by (auto simp del: keyedPrev.simps placeNew.simps)
  from kp obtain A'' wa where
    uA: "updateVNodeDOM A A' w6 = Inr (A'', wa)" and
    kp2: "keyedPrev ?rec [B] [B', A'', C'] [KNum 1] wa = Inr (nb1, ks, w7)"
    unfolding keyedPrev_found [OF fA] bindE_Inr_iff
    using keys(3) by (auto simp del: keyedPrev.simps placeNew.simps)
  from in_place_leaf [OF leaves(1) leaves(3) leaves(4) uA] obtain csa where
    sha: "shape wa = shape w6" and ca: "calls wa = calls w6 @ csa" and
    dA: "dom_ref A'' = Some a" and kA: "key A'' = KNum 1"
    using refs keys by auto
  have fB: "findKey B [B', A'', C'] 0 = Some 0"
    using keys by simp
  from kp2 obtain B'' wb where
    uB: "updateVNodeDOM B B' wa = Inr (B'', wb)" and
    res: "nb1 = [B'', A'', C']" "ks = [KNum 1, KNum 2]" "w7 = wb"
    unfolding keyedPrev_found [OF fB] bindE_Inr_iff
    using keys(4) by auto
  from in_place_leaf [OF leaves(2) leaves(5) leaves(6) uB] obtain csb where
    shb: "shape wb = shape wa" and cb: "calls wb = calls wa @ csb" and
    dB: "dom_ref B'' = Some b" and kB: "key B'' = KNum 2"
    using refs keys by auto
  have shw: "shape wb = shape w"
    using sh6 sha shb by simp
  have lb: "length (nodes wb) = ?c"
    by (rule shape_length [OF shw])
  have chd: "childrenOf wb d = [a, b]"
    using shape_childrenOf [OF shw live(1)] live(2) by simp
  have pa: "parentOf wb a = Some d"
    using shape_parentOf [OF shw, of a] live(3) by simp
  have al: "a < ?c"
    using live(3) by (simp add: parentOf_def split: if_splits)
  \<comment> \<open>the loop over the next children skips B' and A' and builds C'\<close>
  obtain C'' w1 where t: "toHTMLNode C' (logCall (ToHTMLNode ?c) wb) = (C'', w1)"
    by (cases "toHTMLNode C' (logCall (ToHTMLNode ?c) wb)")
  have keep: "?c < length (nodes w1)" "\<And>e. e < ?c \<Longrightarrow> nodes w1 ! e = nodes wb ! e"
    "parentNode (nodes w1 ! ?c) = None"
    using toHTMLNode_keeps(1) [of "logCall (ToHTMLNode ?c) wb" C'] t lb by simp_all
  have c1: "calls w1 = calls wb @ [ToHTMLNode ?c]"
    using toHTMLNode_calls(1) [of C' "logCall (ToHTMLNode ?c) wb"] t by simp
  have dC: "dom_ref C'' = Some ?c" and vC: "view C'' = view C'"
    using toHTMLNode_dom_ref [of C' "logCall (ToHTMLNode ?c) wb"] toHTMLNode_fields(2) [of C' "logCall (ToHTMLNode ?c) wb"]
      t lb by simp_all
  have pa1: "parentOf w1 a = Some d"
    using pa keep(1) keep(2) [of a] al lb by (simp add: parentOf_def)
  have ch1: "childrenOf w1 d = [a, b]"
    using chd keep(2) [of d] live(1) by (simp add: childrenOf_def)
  have ns: "nextSibling w1 a = Some b"
    using pa1 ch1 by (simp add: nextSibling_def)
  let ?w2 = "insertBefore d ?c (Some b) (logCall (InsertBefore d ?c (Some b)) w1)"
  let ?w3 = "case view C' of None \<Rightarrow> ?w2 | Some v \<Rightarrow> logCall (HandleMount v) ?w2"
  have "placeNew lastVNode [KNum 1, KNum 2] None [B'', A'', C'] wb = Inr ([B'', A'', C''], ?w3)"
    using kA kB keys(5) t dA pa1 ns vC lb
    by (simp add: bindE_def domOf_def)
  with pl res have nb: "nb = [B'', A'', C'']" and w8: "w8 = ?w3"
    by simp_all
  \<comment> \<open>where the new node lands\<close>
  have orphan: "parentOf (logCall (InsertBefore d ?c (Some b)) w1) ?c = None"
    using keep(1,3) by (simp add: parentOf_def)
  have w2: "?w2 = updNode ?c (\<lambda>n. n\<lparr>parentNode := Some d\<rparr>)
                   (updNode d (\<lambda>n. n\<lparr>childNodes := insertAt ?c (Some b) (childNodes n)\<rparr>)
                     (logCall (InsertBefore d ?c (Some b)) w1))"
    by (simp add: insertBefore_def detach_orphan [OF orphan])
  have d1: "d < length (nodes w1)" "d \<noteq> ?c"
    using live(1) keep(1) by simp_all
  have ch2: "childrenOf ?w2 d = [a, ?c, b]"
    unfolding w2 using d1 ch1 live(4) by (simp add: childrenOf_def nth_updNode)
  have p2: "parentOf ?w2 ?c = Some d"
    unfolding w2 using keep(1) by (simp add: parentOf_updNode)
  have n3: "nodes ?w3 = nodes ?w2" and c3: "calls ?w3 = calls w1 @ [InsertBefore d ?c (Some b)] @
      (case view C' of None \<Rightarrow> [] | Some v \<Rightarrow> [HandleMount v])"
    by (auto split: option.splits)
  obtain cf where nf: "nodes w' = nodes w8" and cf: "calls w' = calls w8 @ cf"
    unfolding fin by (cases "view vNode") auto
  have nw: "nodes w' = nodes ?w2"
    using nf n3 w8 by simp
  have "childrenOf w' d = childrenOf ?w2 d" "parentOf w' ?c = parentOf ?w2 ?c"
    unfolding childrenOf_def parentOf_def nw by simp_all
  then have "childrenOf w' d = [a, ?c, b]" "parentOf w' ?c = Some d"
    using ch2 p2 by simp_all
  moreover have "map dom_ref (body vNode') = [Some b, Some a, Some ?c]"
    using v nb dA dB dC by simp
  moreover have "calls w' = calls w @ (cs @ csa @ csb) @
            [ToHTMLNode ?c, InsertBefore d ?c (Some b)] @
            (case view C' of None \<Rightarrow> [] | Some v \<Rightarrow> [HandleMount v]) @ cf"
    using cf w8 c3 c1 cb ca c6 by simp
  ultimately show ?thesis
    by blast
qed

text \<open>The theorem at the elements \<^verbatim>\<open>a\<close>, \<^verbatim>\<open>b\<close>, \<^verbatim>\<open>c\<close> under a \<^verbatim>\<open>div\<close>.\<close>

theorem C2_keyed_children_witness:
  "\<not> rebuildCase (fst (toHTMLNode keyedOld emptyWorld)) keyedNew \<and>
   body (fst (toHTMLNode keyedOld emptyWorld)) = [nodeA (Some 1), nodeB (Some 2)] \<and>
   body keyedNew = [nodeB None, nodeA None, nodeC] \<and>
   dom_ref (fst (toHTMLNode keyedOld emptyWorld)) = Some 0 \<and>
   childrenOf (snd (toHTMLNode keyedOld emptyWorld)) 0 = [1, 2] \<and>
   parentOf (snd (toHTMLNode keyedOld emptyWorld)) 1 = Some 0 \<and>
   (\<exists>vNode' w'.
      updateVNodeDOM (fst (toHTMLNode keyedOld emptyWorld)) keyedNew (snd (toHTMLNode keyedOld emptyWorld))
        = Inr (vNode', w') \<and>
      childrenOf w' 0 = [1, 3, 2] \<and>
      map dom_ref (body vNode') = [Some 2, Some 1, Some 3] \<and>
      parentOf w' 3 = Some 0 \<and>
      calls w' = [ToHTMLNode 3, InsertBefore 0 3 (Some 2), HandleMount 7])"
proof -
  define l where "l = fst (toHTMLNode keyedOld emptyWorld)"
  define w where "w = snd (toHTMLNode keyedOld emptyWorld)"
  have h1: "\<not> rebuildCase l keyedNew"
    unfolding l_def by code_simp
  have h2: "body l = [nodeA (Some 1), nodeB (Some 2)]"
    unfolding l_def by code_simp
  have h3: "body keyedNew = [nodeB None, nodeA None, nodeC]"
    by code_simp
  have k: "key (nodeA (Some 1)) = KNum 1" "key (nodeB (Some 2)) = KNum 2"
    "key (nodeA None) = KNum 1" "key (nodeB None) = KNum 2" "key nodeC = KNum 3"
    by (simp_all add: nodeA_def nodeB_def nodeC_def)
  have lv: "\<not> rebuildCase (nodeA (Some 1)) (nodeA None)" "\<not> rebuildCase (nodeB (Some 2)) (nodeB None)"
    "body (nodeA (Some 1)) = []" "body (nodeA None) = []"
    "body (nodeB (Some 2)) = []" "body (nodeB None) = []"
    by (simp_all add: nodeA_def nodeB_def rebuildCase_def)
  have r: "dom_ref l = Some 0" "dom_ref (nodeA (Some 1)) = Some 1" "dom_ref (nodeB (Some 2)) = Some 2"
    unfolding l_def by code_simp+
  have n: "length (nodes w) = 3"
    unfolding w_def by code_simp
  have lw: "0 < length (nodes w)" "childrenOf w 0 = [1, 2]" "parentOf w 1 = Some 0" "(1::nat) \<noteq> 2"
    unfolding w_def by code_simp+
  have "(case updateVNodeDOM l keyedNew w of Inl e \<Rightarrow> False
         | Inr r \<Rightarrow> calls (snd r) = [ToHTMLNode 3, InsertBefore 0 3 (Some 2), HandleMount 7])"
    unfolding l_def w_def by code_simp
  then obtain v1 w1 where run: "updateVNodeDOM l keyedNew w = Inr (v1, w1)"
    and c: "calls w1 = [ToHTMLNode 3, InsertBefore 0 3 (Some 2), HandleMount 7]"
    by (cases "updateVNodeDOM l keyedNew w") auto
  have "childrenOf w1 0 = [1, 3, 2] \<and> map dom_ref (body v1) = [Some 2, Some 1, Some 3] \<and>
        parentOf w1 3 = Some 0"
    using C2_keyed_children [OF h1 h2 h3 k lv r lw run] n by simp
  then have "\<exists>vNode' w'. updateVNodeDOM l keyedNew w = Inr (vNode', w') \<and>
      childrenOf w' 0 = [1, 3, 2] \<and>
      map dom_ref (body vNode') = [Some 2, Some 1, Some 3] \<and>
      parentOf w' 3 = Some 0 \<and>
      calls w' = [ToHTMLNode 3, InsertBefore 0 3 (Some 2), HandleMount 7]"
    using run c by simp
  then show ?thesis
    using h1 h2 h3 r(1) lw(2,3)
    unfolding l_def [symmetric] w_def [symmetric]
    by simp
qed

section \<open>Views and the rendering pipeline\<close>

text \<open>
  What \<^verbatim>\<open>View.renderToVNode\<close> walks over is a JavaScript value: \<^verbatim>\<open>null\<close> (or
  \<^verbatim>\<open>undefined\<close>), a View, a virtual node, or something else (a number, say). A View is
  an object with an identity. \<open>JView v acts b\<close> is the View \<open>v\<close> together with what its
  \<^verbatim>\<open>getBody(side)\<close> does when the pass calls it: the calls of \<^verbatim>\<open>state.set\<close> it makes
  (\<open>acts\<close>, each on the View it names) and the value it returns (\<open>b\<close>). A chain of
  delegating Views is therefore finite here; a \<^verbatim>\<open>getBody\<close> that returns new Views for
  ever makes the source loop for ever and is outside the model. The children of a virtual
  node are JavaScript values again. The fields of a virtual node that rendering does not
  look at are kept together in \<open>vprops\<close>.
\<close>

record vprops =
  vtag :: "string option"
  vtype :: VNodeType
  vkey_ :: vkey
  vstyles :: "(string \<times> sval) list"
  vevents :: "(string \<times> handler list) list"
  vattributes :: "(string \<times> sval) list"

datatype action = StateSet nat "(string \<times> sval) list"

datatype jsval =
    JNull
  | JNumber int
  | JView nat "action list" jsval
  | JVNode vprops "jsval list" "nat option" "nat option"

fun isView :: "jsval \<Rightarrow> bool" where
  "isView (JView v acts b) = True"
| "isView x = False"

fun isVNode :: "jsval \<Rightarrow> bool" where
  "isVNode (JVNode p b d vw) = True"
| "isVNode x = False"

text \<open>
  The mutable part of a View: \<^verbatim>\<open>lastVNode\<close>, the function that \<^verbatim>\<open>state.set\<close> currently
  is (the one the constructor installed, or the empty function that a render pass puts in
  its place), and the current state.
\<close>

datatype slot = Original | Noop

record view_state =
  lastVNode :: jsval
  stateSet :: slot
  currentState :: "string \<rightharpoonup> sval"

text \<open>
  Modelled from the spec: the scheduler \<^verbatim>\<open>Worker\<close> (\<^verbatim>\<open>Worker.js\<close> is not among the
  sources). \<^verbatim>\<open>Worker.addUnitOfWork\<close> appends a unit of work to a queue; the unit runs
  after the call that enqueued it has returned, in submission order.
\<close>

datatype mountTarget = DomNode nat | NotANode

datatype work = MountWork nat mountTarget | UnmountWork nat | InvalidateWork nat

text \<open>\<open>bodyCalls\<close> records, for every call of a \<^verbatim>\<open>getBody\<close>, the View called and what the
  \<^verbatim>\<open>state.set\<close> of every View was at that moment.\<close>

record vworld =
  views :: "nat \<Rightarrow> view_state"
  queue :: "work list"
  bodyCalls :: "(nat \<times> (nat \<Rightarrow> slot)) list"

definition slotsOf :: "vworld \<Rightarrow> nat \<Rightarrow> slot" where
  "slotsOf s u = stateSet (views s u)"

definition updView :: "nat \<Rightarrow> (view_state \<Rightarrow> view_state) \<Rightarrow> vworld \<Rightarrow> vworld" where
  "updView v f s = s\<lparr>views := (views s)(v := f (views s v))\<rparr>"

text \<open>The getter \<^verbatim>\<open>mounted\<close>: \<^verbatim>\<open>lastVNode instanceof VNode && lastVNode.dom instanceof Node\<close>.\<close>

definition mounted :: "vworld \<Rightarrow> nat \<Rightarrow> bool" where
  "mounted s v = (case lastVNode (views s v) of JVNode p b (Some d) vw \<Rightarrow> True | _ \<Rightarrow> False)"

definition addUnitOfWork :: "work \<Rightarrow> vworld \<Rightarrow> vworld" where
  "addUnitOfWork u s = s\<lparr>queue := queue s @ [u]\<rparr>"

text \<open>\<^verbatim>\<open>invalidate()\<close>: a mounted View enqueues its forced invalidation.\<close>

definition invalidate :: "nat \<Rightarrow> vworld \<Rightarrow> vworld" where
  "invalidate v s = (if mounted s v then addUnitOfWork (InvalidateWork v) s else s)"

text \<open>
  Modelled from the spec: \<^verbatim>\<open>State.dispatch\<close> (\<^verbatim>\<open>State.js\<close> is not among the sources)
  runs the reducer and notifies the subscribers before it returns. The reducer and the
  subscriber are the ones the constructor of View installs: \<^verbatim>\<open>Object.assign(state, value)\<close>
  for a \<^verbatim>\<open>set\<close> action, and \<^verbatim>\<open>invalidate()\<close> (every View is constructed with
  \<^verbatim>\<open>preferForceInvalidation = false\<close>).
\<close>

definition dispatch :: "nat \<Rightarrow> (string \<times> sval) list \<Rightarrow> vworld \<Rightarrow> vworld" where
  "dispatch v keys s =
     invalidate v (updView v (\<lambda>x. x\<lparr>currentState := currentState x ++ map_of (rev keys)\<rparr>) s)"

text \<open>A call \<^verbatim>\<open>view.state.set(keys)\<close>: whatever function the slot holds at that moment.\<close>

definition stateSetCall :: "nat \<Rightarrow> (string \<times> sval) list \<Rightarrow> vworld \<Rightarrow> vworld" where
  "stateSetCall v keys s = (case stateSet (views s v) of Noop \<Rightarrow> s | Original \<Rightarrow> dispatch v keys s)"

fun runAction :: "vworld \<Rightarrow> action \<Rightarrow> vworld" where
  "runAction s (StateSet v keys) = stateSetCall v keys s"

text \<open>A call \<^verbatim>\<open>node.getBody(side)\<close> of the View \<open>v\<close>.\<close>

definition getBody :: "nat \<Rightarrow> action list \<Rightarrow> vworld \<Rightarrow> vworld" where
  "getBody v acts s = foldl runAction (s\<lparr>bodyCalls := bodyCalls s @ [(v, slotsOf s)]\<rparr>) acts"

text \<open>The \<^verbatim>\<open>while (node instanceof View)\<close> loop of \<open>renderToVNode\<close>; \<open>vs\<close> is \<^verbatim>\<open>views\<close>.\<close>

fun chain :: "bool \<Rightarrow> jsval \<Rightarrow> nat list \<Rightarrow> vworld \<Rightarrow> jsval \<times> nat list \<times> vworld" where
  "chain ignoreStateChange (JView v acts b) vs s =
     (if ignoreStateChange
      then (let nodeStateSet = stateSet (views s v);
                s1 = updView v (\<lambda>x. x\<lparr>stateSet := Noop\<rparr>) s;
                s2 = getBody v acts s1;
                s3 = updView v (\<lambda>x. x\<lparr>stateSet := nodeStateSet\<rparr>) s2
            in chain ignoreStateChange b (vs @ [v]) s3)
      else chain ignoreStateChange b (vs @ [v]) (getBody v acts s))"
| "chain ignoreStateChange node vs s = (node, vs, s)"

text \<open>The loop over \<^verbatim>\<open>node.body\<close>: a child that is a View or a virtual node is replaced
  by what the recursive call returns; any other child raises.\<close>

fun renderChildren ::
  "(jsval \<Rightarrow> vworld \<Rightarrow> error + (jsval \<times> vworld)) \<Rightarrow> jsval list \<Rightarrow> vworld \<Rightarrow>
   error + (jsval list \<times> vworld)" where
  "renderChildren rec [] s = Inr ([], s)"
| "renderChildren rec (c # cs) s =
     (if isView c \<or> isVNode c
      then bindE (rec c s) (\<lambda>(c', s').
             bindE (renderChildren rec cs s') (\<lambda>(cs', s''). Inr (c' # cs', s'')))
      else Inl (Error ''Unexpected child passed''))"

lemma renderChildren_cong [fundef_cong]:
  "cs = cs' \<Longrightarrow> s = s' \<Longrightarrow> (\<And>c t. c \<in> set cs' \<Longrightarrow> rec c t = rec' c t) \<Longrightarrow>
   renderChildren rec cs s = renderChildren rec' cs' s'"
proof (induction cs' arbitrary: cs s s')
  case Nil
  then show ?case by simp
next
  case (Cons c cs')
  have tl: "renderChildren rec cs' t = renderChildren rec' cs' t" for t
    by (rule Cons.IH) (simp_all add: Cons.prems)
  show ?case
    using Cons.prems tl by (auto simp: bindE_def split: sum.splits)
qed

lemma chain_size: "chain i x vs s = (n, vs', s') \<Longrightarrow> size n \<le> size x"
proof (induction x arbitrary: vs s)
  case (JView v acts b)
  show ?case
  proof (cases i)
    case True
    with JView.prems have "chain i b (vs @ [v])
        (updView v (\<lambda>x. x\<lparr>stateSet := stateSet (views s v)\<rparr>)
          (getBody v acts (updView v (\<lambda>x. x\<lparr>stateSet := Noop\<rparr>) s))) = (n, vs', s')"
      by (simp add: Let_def)
    then have "size n \<le> size b"
      by (rule JView.IH)
    then show ?thesis by simp
  next
    case False
    with JView.prems have "chain i b (vs @ [v]) (getBody v acts s) = (n, vs', s')"
      by simp
    then have "size n \<le> size b"
      by (rule JView.IH)
    then show ?thesis by simp
  qed
qed simp_all

definition expectedVNode :: string where
  "expectedVNode = ''Expected a VNode as the result of rendering the View (the rendering is recursive, so the error can be in the parent class or in the child class)''"

definition saveAll :: "nat list \<Rightarrow> jsval \<Rightarrow> vworld \<Rightarrow> vworld" where
  "saveAll vs node s = foldl (\<lambda>t v. updView v (\<lambda>x. x\<lparr>lastVNode := node\<rparr>) t) s vs"

definition lastOf :: "nat list \<Rightarrow> nat option" where
  "lastOf vs = (if vs = [] then None else Some (last vs))"

text \<open>
  \<^verbatim>\<open>View.renderToVNode({ view, saveVNode, ignoreStateChange, side })\<close>. Its
  argument \<^verbatim>\<open>view\<close> is called \<open>root\<close> here. (\<^verbatim>\<open>side\<close> is only handed to
  \<^verbatim>\<open>getBody\<close>, whose outcome the value \<open>root\<close> already holds.)
\<close>

function renderToVNode :: "bool \<Rightarrow> bool \<Rightarrow> jsval \<Rightarrow> vworld \<Rightarrow> error + (jsval \<times> vworld)" where
  "renderToVNode saveVNode ignoreStateChange root s =
     (if isVNode root then Inr (root, s)
      else (case chain ignoreStateChange root [] s of
              (node, vs, s1) \<Rightarrow>
                bindE (if node \<noteq> JNull
                       then (case node of
                               JVNode p b d vw \<Rightarrow>
                                 bindE (renderChildren
                                          (\<lambda>c t. renderToVNode True ignoreStateChange c t) b s1)
                                   (\<lambda>(b', s2). Inr (JVNode p b' d (lastOf vs), s2))
                             | _ \<Rightarrow>
                                 Inl (Error expectedVNode))
                       else Inr (node, s1))
                  (\<lambda>(node', s2). Inr (node', if saveVNode then saveAll vs node' s2 else s2))))"
  by pat_completeness auto
termination
proof (relation "measure (\<lambda>(saveVNode, ignoreStateChange, root, s). size root)")
  show "wf (measure (\<lambda>(saveVNode, ignoreStateChange, root, s). size root))"
    by simp
next
  fix saveVNode ignoreStateChange :: bool and root node c :: jsval and s s1 t :: vworld
    and x y :: "nat list \<times> vworld" and vs :: "nat list" and p b d vw
  assume "(node, x) = chain ignoreStateChange root [] s" "(vs, s1) = x"
    and "node = JVNode p b d vw" and "c \<in> set b"
  then have "size node \<le> size root" "size c < size node"
    using chain_size [of ignoreStateChange root "[]" s node vs s1]
    by (auto simp: less_Suc_eq_le dest: size_list_estimation')
  then show "((True, ignoreStateChange, c, t), saveVNode, ignoreStateChange, root, s)
             \<in> measure (\<lambda>(saveVNode, ignoreStateChange, root, s). size root)"
    by simp
qed

declare renderToVNode.simps [simp del]

text \<open>\<^verbatim>\<open>mountTo(parent)\<close> and \<^verbatim>\<open>unmount()\<close>: the two guards, then the unit of work.\<close>

fun isNode :: "mountTarget \<Rightarrow> bool" where
  "isNode (DomNode d) = True"
| "isNode NotANode = False"

definition mountTo :: "nat \<Rightarrow> mountTarget \<Rightarrow> vworld \<Rightarrow> error + vworld" where
  "mountTo v parent s =
     (if mounted s v then Inl (Error ''The view is already mounted'')
      else if \<not> isNode parent then Inl (Error ''The parent is not an instance of Node'')
      else Inr (addUnitOfWork (MountWork v parent) s))"

definition unmount :: "nat \<Rightarrow> vworld \<Rightarrow> error + vworld" where
  "unmount v s =
     (if \<not> mounted s v then Inl (Error ''The view is not mounted'')
      else Inr (addUnitOfWork (UnmountWork v) s))"

text \<open>The state in which the constructor leaves every View, and an empty queue.\<close>

definition newView :: view_state where
  "newView = \<lparr>lastVNode = JNull, stateSet = Original, currentState = Map.empty\<rparr>"

definition startWorld :: vworld where
  "startWorld = \<lparr>views = (\<lambda>v. newView), queue = [], bodyCalls = []\<rparr>"

subsection \<open>What a pass walks over\<close>

text \<open>The value in which a chain of delegating Views ends, and the Views of the chain.\<close>

fun chainEnd :: "jsval \<Rightarrow> jsval" where
  "chainEnd (JView v acts b) = chainEnd b"
| "chainEnd x = x"

fun chainViews :: "jsval \<Rightarrow> nat list" where
  "chainViews (JView v acts b) = v # chainViews b"
| "chainViews x = []"

text \<open>What the \<^verbatim>\<open>getBody\<close> calls of a chain leave of the world.\<close>

fun chainState :: "bool \<Rightarrow> jsval \<Rightarrow> vworld \<Rightarrow> vworld" where
  "chainState ignoreStateChange (JView v acts b) s =
     (if ignoreStateChange
      then chainState ignoreStateChange b
             (updView v (\<lambda>x. x\<lparr>stateSet := stateSet (views s v)\<rparr>)
               (getBody v acts (updView v (\<lambda>x. x\<lparr>stateSet := Noop\<rparr>) s)))
      else chainState ignoreStateChange b (getBody v acts s))"
| "chainState ignoreStateChange x s = s"

text \<open>
  \<open>raises False root\<close>: the pass over \<open>root\<close> meets a chain that ends in a value that is
  neither empty nor a virtual node, or a child that is neither a View nor a virtual node.
  The flag says whether the value was reached as the outcome of a \<^verbatim>\<open>getBody\<close>: only then
  are the children of a virtual node looked at.
\<close>

fun raises :: "bool \<Rightarrow> jsval \<Rightarrow> bool" where
  "raises inChain (JView v acts b) = raises True b"
| "raises inChain (JVNode p cs d vw) =
     (inChain \<and> list_ex (\<lambda>c. (\<not> isView c \<and> \<not> isVNode c) \<or> raises False c) cs)"
| "raises inChain JNull = False"
| "raises inChain (JNumber n) = True"

definition badChild :: "jsval \<Rightarrow> bool" where
  "badChild c \<longleftrightarrow> (\<not> isView c \<and> \<not> isVNode c) \<or> raises False c"

text \<open>The node that a pass over a value returns when it returns; \<open>vs\<close> are the Views of
  the chain walked so far.\<close>

fun rendered :: "nat list \<Rightarrow> jsval \<Rightarrow> jsval" where
  "rendered vs (JView v acts b) = rendered (vs @ [v]) b"
| "rendered vs (JVNode p cs d vw) =
     (if vs = [] then JVNode p cs d vw else JVNode p (map (rendered []) cs) d (lastOf vs))"
| "rendered vs x = x"

text \<open>The Views that a pass renders as children, at every level.\<close>

fun childViews :: "bool \<Rightarrow> jsval \<Rightarrow> jsval list" where
  "childViews inChain (JView v acts b) = childViews True b"
| "childViews inChain (JVNode p cs d vw) =
     (if inChain then concat (map (\<lambda>c. if isView c then c # childViews False c else []) cs) else [])"
| "childViews inChain x = []"

text \<open>The Views whose \<^verbatim>\<open>lastVNode\<close> a pass may write.\<close>

definition written :: "bool \<Rightarrow> jsval \<Rightarrow> nat list" where
  "written saveVNode root =
     (if saveVNode then chainViews root else []) @ concat (map chainViews (childViews False root))"

text \<open>Every \<^verbatim>\<open>state.set\<close> call that a \<^verbatim>\<open>getBody\<close> in the value makes is a call on the
  View's own state.\<close>

fun ownCall :: "nat \<Rightarrow> action \<Rightarrow> bool" where
  "ownCall v (StateSet t keys) = (t = v)"


text \<open>The entry that \<open>bodyCalls\<close> gets when the \<^verbatim>\<open>getBody\<close> of \<open>v\<close> is called with the
  \<^verbatim>\<open>state.set\<close> of \<open>v\<close> replaced and every other one as in \<open>s\<close>.\<close>

definition silenced :: "vworld \<Rightarrow> nat \<Rightarrow> nat \<times> (nat \<Rightarrow> slot)" where
  "silenced s v = (v, (slotsOf s)(v := Noop))"

text \<open>\<open>pass s vs s'\<close>: from \<open>s\<close> to \<open>s'\<close> the \<^verbatim>\<open>getBody\<close> of the Views \<open>vs\<close> were called, in
  this order, each with its own \<^verbatim>\<open>state.set\<close> replaced and no other, and every
  \<^verbatim>\<open>state.set\<close> is in the end what it was. \<open>still s s'\<close>: nothing was enqueued and no
  state changed.\<close>

definition pass :: "vworld \<Rightarrow> nat list \<Rightarrow> vworld \<Rightarrow> bool" where
  "pass s vs s' \<longleftrightarrow> slotsOf s' = slotsOf s \<and> bodyCalls s' = bodyCalls s @ map (silenced s) vs"

definition still :: "vworld \<Rightarrow> vworld \<Rightarrow> bool" where
  "still s s' \<longleftrightarrow> queue s' = queue s \<and> (\<forall>u. currentState (views s' u) = currentState (views s u))"

text \<open>The value with the \<^verbatim>\<open>state.set\<close> calls that a walked body makes on its own View taken
  out. The flag is the one of \<open>raises\<close>: the children of a virtual node are walked only
  when the node was reached as the outcome of a \<^verbatim>\<open>getBody\<close>.\<close>

fun stripOwn :: "bool \<Rightarrow> jsval \<Rightarrow> jsval" where
  "stripOwn inChain (JView v acts b) = JView v (filter (\<lambda>a. \<not> ownCall v a) acts) (stripOwn True b)"
| "stripOwn inChain (JVNode p cs d vw) =
     (if inChain then JVNode p (map (stripOwn False) cs) d vw else JVNode p cs d vw)"
| "stripOwn inChain x = x"


text \<open>\<open>sameBut a b\<close>: the two worlds differ at most in the record of the \<^verbatim>\<open>getBody\<close> calls.
  \<open>slotOff v x y\<close>: \<open>x\<close> is \<open>y\<close> with the \<^verbatim>\<open>state.set\<close> of \<open>v\<close> replaced, up to that record.\<close>

definition sameBut :: "vworld \<Rightarrow> vworld \<Rightarrow> bool" where
  "sameBut a b \<longleftrightarrow> views a = views b \<and> queue a = queue b"


text \<open>\<open>kept vs s s'\<close>: from \<open>s\<close> to \<open>s'\<close> the \<^verbatim>\<open>lastVNode\<close> of no View outside \<open>vs\<close> changed.
  \<open>savedIn cs s\<close>: in \<open>s\<close> the \<^verbatim>\<open>lastVNode\<close> of every View in the chain of every \<open>c\<close> of \<open>cs\<close> is
  the node that \<open>c\<close> renders to. \<open>viewsUnder c\<close>: a child and the Views rendered below it.\<close>

definition kept :: "nat list \<Rightarrow> vworld \<Rightarrow> vworld \<Rightarrow> bool" where
  "kept vs s s' \<longleftrightarrow> (\<forall>v. v \<notin> set vs \<longrightarrow> lastVNode (views s' v) = lastVNode (views s v))"

definition savedIn :: "jsval list \<Rightarrow> vworld \<Rightarrow> bool" where
  "savedIn cs s \<longleftrightarrow> (\<forall>c \<in> set cs. \<forall>v \<in> set (chainViews c). lastVNode (views s v) = rendered [] c)"

definition viewsUnder :: "jsval \<Rightarrow> jsval list" where
  "viewsUnder c = (if isView c then c # childViews False c else [])"

subsection \<open>Concrete Views\<close>

definition divProps :: vprops where
  "divProps = \<lparr>vtag = Some ''div'', vtype = Element, vkey_ = KNull, vstyles = [], vevents = [],
               vattributes = []\<rparr>"

definition numberBody :: jsval where
  "numberBody = JView 1 [] (JView 2 [] (JNumber 5))"

definition nullBody :: jsval where
  "nullBody = JView 1 [] (JView 2 [] JNull)"

definition badChildOfView :: jsval where
  "badChildOfView = JView 1 [] (JVNode divProps [JView 2 [] (JVNode divProps [JNumber 42] None None)] None None)"

definition badChildOfVNode :: jsval where
  "badChildOfVNode = JView 1 [] (JVNode divProps [JVNode divProps [JNumber 42] None None] None None)"

definition mountedWorld :: vworld where
  "mountedWorld = updView 2 (\<lambda>x. x\<lparr>lastVNode := JVNode divProps [] (Some 0) None\<rparr>) startWorld"


definition setsOwnState :: jsval where
  "setsOwnState =
     JView 1 [StateSet 1 [(''count'', Str ''1'')]]
       (JVNode divProps [JView 2 [StateSet 2 [(''count'', Str ''2'')]] (JVNode divProps [] None None)]
          None None)"


text \<open>
  A View (1) that renders to a \<^verbatim>\<open>div\<close> with two children: a View (2) that delegates to a
  View (3), which renders to a \<^verbatim>\<open>div\<close> holding a View (5); and a \<^verbatim>\<open>div\<close> that is already
  a virtual node and holds a View (4). Then the \<^verbatim>\<open>div\<close> with the View (4) as a root.
\<close>

definition leafView :: "nat \<Rightarrow> jsval" where
  "leafView v = JView v [] (JVNode divProps [] None None)"

definition delegatingChild :: jsval where
  "delegatingChild = JView 2 [] (JView 3 [] (JVNode divProps [leafView 5] None None))"

definition builtChild :: jsval where
  "builtChild = JVNode divProps [leafView 4] None None"

definition nestedViews :: jsval where
  "nestedViews = JView 1 [] (JVNode divProps [delegatingChild, builtChild] None None)"

section \<open>When a render pass raises and what it returns\<close>

lemma chain_eq: "chain i x vs s = (chainEnd x, vs @ chainViews x, chainState i x s)"
proof (induction x arbitrary: vs s)
  case (JView v acts b)
  show ?case
    using JView.IH by (cases i) (simp_all add: Let_def)
qed simp_all

lemma renderToVNode_VNode: "isVNode root \<Longrightarrow> renderToVNode saveVNode i root s = Inr (root, s)"
  by (simp add: renderToVNode.simps [of saveVNode i root s])

lemma chainEnd_not_view: "\<not> isView (chainEnd x)"
  by (induction x) simp_all

lemma chainEnd_self: "\<not> isView x \<Longrightarrow> chainEnd x = x \<and> chainViews x = []"
  by (cases x) simp_all

lemma chainViews_empty: "chainViews x = [] \<longleftrightarrow> \<not> isView x"
  by (cases x) simp_all

lemma raises_True_chain:
  "raises True x =
     (case chainEnd x of JNull \<Rightarrow> False | JNumber n \<Rightarrow> True
      | JVNode p cs d vw \<Rightarrow> list_ex badChild cs | JView v acts b \<Rightarrow> True)"
proof (induction x)
  case (JVNode p cs d vw)
  show ?case
    by (simp add: badChild_def [abs_def])
qed simp_all

lemma raises_root:
  assumes "\<not> isVNode root"
  shows "raises False root =
     (case chainEnd root of JNull \<Rightarrow> False | JNumber n \<Rightarrow> True
      | JVNode p cs d vw \<Rightarrow> list_ex badChild cs | JView v acts b \<Rightarrow> True)"
proof (cases root)
  case (JView v acts b)
  then show ?thesis
    using raises_True_chain [of b] by simp
qed (use assms in simp_all)

lemma rendered_chain:
  "rendered vs x =
     (case chainEnd x of
        JVNode p cs d vw \<Rightarrow>
          if vs @ chainViews x = [] then JVNode p cs d vw
          else JVNode p (map (rendered []) cs) d (lastOf (vs @ chainViews x))
      | y \<Rightarrow> y)"
proof (induction x arbitrary: vs)
  case (JView v acts b)
  show ?case
    using JView.IH [of "vs @ [v]"] chainEnd_not_view [of b]
    by (cases "chainEnd b") simp_all
qed simp_all

lemma rendered_root:
  assumes "\<not> isVNode root"
  shows "rendered [] root =
     (case chainEnd root of
        JVNode p cs d vw \<Rightarrow> JVNode p (map (rendered []) cs) d (lastOf (chainViews root))
      | y \<Rightarrow> y)"
proof (cases "chainEnd root")
  case (JVNode p cs d vw)
  then have "isView root"
    using assms chainEnd_self [of root] by (cases "isView root") auto
  then have "chainViews root \<noteq> []"
    by (simp add: chainViews_empty)
  then show ?thesis
    using JVNode by (simp add: rendered_chain [of "[]" root])
qed (simp_all add: rendered_chain [of "[]" root])

text \<open>The loop over the children, given what the recursive calls do.\<close>

lemma renderChildren_outcome:
  assumes "\<And>c t. c \<in> set cs \<Longrightarrow> raises False c \<Longrightarrow> \<exists>msg. rec c t = Inl (Error msg)"
    and "\<And>c t. c \<in> set cs \<Longrightarrow> \<not> raises False c \<Longrightarrow> \<exists>t'. rec c t = Inr (rendered [] c, t')"
  shows "(list_ex badChild cs \<longrightarrow> (\<exists>msg. renderChildren rec cs s = Inl (Error msg))) \<and>
         (\<not> list_ex badChild cs \<longrightarrow> (\<exists>s'. renderChildren rec cs s = Inr (map (rendered []) cs, s')))"
  using assms
proof (induction cs arbitrary: s)
  case Nil
  show ?case by simp
next
  case (Cons c cs)
  have ih: "(list_ex badChild cs \<longrightarrow> (\<exists>msg. renderChildren rec cs t = Inl (Error msg))) \<and>
         (\<not> list_ex badChild cs \<longrightarrow> (\<exists>s'. renderChildren rec cs t = Inr (map (rendered []) cs, s')))" for t
    by (rule Cons.IH) (auto intro: Cons.prems)
  show ?case
  proof (cases "\<not> isView c \<and> \<not> isVNode c")
    case True
    then show ?thesis
      by (auto simp: badChild_def)
  next
    case ok: False
    show ?thesis
    proof (cases "raises False c")
      case True
      then obtain msg where "rec c s = Inl (Error msg)"
        using Cons.prems(1) [of c s] by auto
      then show ?thesis
        using True ok by (auto simp: badChild_def bindE_def)
    next
      case False
      then obtain t where t: "rec c s = Inr (rendered [] c, t)"
        using Cons.prems(2) [of c s] by auto
      have b: "badChild c = False"
        using ok False by (simp add: badChild_def)
      show ?thesis
        using ih [of t] t ok b by (auto simp: bindE_def)
    qed
  qed
qed

lemma renderToVNode_outcome:
  "(raises False root \<longrightarrow> (\<exists>msg. renderToVNode saveVNode i root s = Inl (Error msg))) \<and>
   (\<not> raises False root \<longrightarrow> (\<exists>s'. renderToVNode saveVNode i root s = Inr (rendered [] root, s')))"
proof (induction saveVNode i root s rule: renderToVNode.induct)
  case (1 saveVNode i root s)
  show ?case
  proof (cases "isVNode root")
    case True
    then have "\<not> raises False root" "rendered [] root = root"
      by (cases root; simp)+
    then show ?thesis
      using renderToVNode_VNode [OF True] by simp
  next
    case nv: False
    note unf = renderToVNode.simps [of saveVNode i root s] chain_eq [of i root "[]" s]
    show ?thesis
    proof (cases "chainEnd root")
      case JNull
      then show ?thesis
        using nv by (simp add: unf raises_root rendered_root bindE_def)
    next
      case (JNumber n)
      then show ?thesis
        using nv by (simp add: unf raises_root rendered_root bindE_def)
    next
      case (JView v acts b)
      then show ?thesis
        using chainEnd_not_view [of root] by simp
    next
      case (JVNode p cs d vw)
      have ih: "(raises False c \<longrightarrow> (\<exists>msg. renderToVNode True i c t = Inl (Error msg))) \<and>
                (\<not> raises False c \<longrightarrow> (\<exists>s'. renderToVNode True i c t = Inr (rendered [] c, s')))"
        if "c \<in> set cs" for c t
        using that by (intro "1.IH" [OF nv]) (simp_all add: chain_eq JVNode)
      have ch: "(list_ex badChild cs \<longrightarrow>
                  (\<exists>msg. renderChildren (\<lambda>c t. renderToVNode True i c t) cs (chainState i root s)
                           = Inl (Error msg))) \<and>
                (\<not> list_ex badChild cs \<longrightarrow>
                  (\<exists>s'. renderChildren (\<lambda>c t. renderToVNode True i c t) cs (chainState i root s)
                          = Inr (map (rendered []) cs, s')))"
        by (rule renderChildren_outcome) (use ih in blast)+
      show ?thesis
      proof (cases "list_ex badChild cs")
        case True
        then obtain msg where
          "renderChildren (\<lambda>c t. renderToVNode True i c t) cs (chainState i root s) = Inl (Error msg)"
          using ch by auto
        then show ?thesis
          using nv JVNode True by (simp add: unf raises_root bindE_def)
      next
        case False
        then obtain s' where
          "renderChildren (\<lambda>c t. renderToVNode True i c t) cs (chainState i root s)
             = Inr (map (rendered []) cs, s')"
          using ch by auto
        then show ?thesis
          using nv JVNode False by (simp add: unf raises_root rendered_root bindE_def)
      qed
    qed
  qed
qed

section \<open>The render contract\<close>

text \<open>
  Claim C6, as stated, says that a child entry that is neither a View nor a virtual node
  makes \<open>renderToVNode\<close> fail at any level of the resulting tree. A child that is already
  a virtual node is returned by the recursive call as it is (\<^verbatim>\<open>view instanceof VNode\<close>),
  so its own children are never looked at: a View whose body is a \<^verbatim>\<open>div\<close> with a
  \<^verbatim>\<open>div\<close> child that holds the number 42 renders without an error, and the number is
  still in the tree.
\<close>

theorem C6_child_of_a_VNode_child_is_not_checked:
  "(case renderToVNode False False badChildOfVNode startWorld of
      Inl e \<Rightarrow> False
    | Inr (node, s') \<Rightarrow>
        node = JVNode divProps [JVNode divProps [JNumber 42] None None] None (Some 1))"
  by code_simp

text \<open>
  Claim C6, amended: \<open>renderToVNode\<close> fails with the render-contract error when the body
  chain of the root ends in a value that is not empty and not a virtual node; a root whose
  chain ends in an empty value is rendered to that empty value without an error; and in
  general the pass fails, always with an \<^verbatim>\<open>Error\<close>, exactly when \<open>raises False root\<close>
  holds: some chain walked (the root's, or that of a child View at any level reached through
  Views) ends in a value that is neither empty nor a virtual node, or the node that such a
  chain ends in has a child entry that is neither a View nor a virtual node. The children
  of a root or of a child that is already a virtual node are not examined. When the pass
  does not fail it returns \<open>rendered [] root\<close>.
\<close>

theorem C6_render_contract:
  "(chainEnd root = JNumber n \<longrightarrow>
      renderToVNode saveVNode i root s = Inl (Error expectedVNode)) \<and>
   (chainEnd root = JNull \<longrightarrow> (\<exists>s'. renderToVNode saveVNode i root s = Inr (JNull, s'))) \<and>
   (raises False root \<longrightarrow> (\<exists>msg. renderToVNode saveVNode i root s = Inl (Error msg))) \<and>
   (\<not> raises False root \<longrightarrow>
      (\<exists>s'. renderToVNode saveVNode i root s = Inr (rendered [] root, s')))"
proof (intro conjI impI)
  assume e: "chainEnd root = JNumber n"
  then have "\<not> isVNode root"
    by (cases root) auto
  then show "renderToVNode saveVNode i root s = Inl (Error expectedVNode)"
    using e by (simp add: renderToVNode.simps [of saveVNode i root s] chain_eq bindE_def)
next
  assume e: "chainEnd root = JNull"
  then have nv: "\<not> isVNode root"
    by (cases root) auto
  then have "\<not> raises False root" "rendered [] root = JNull"
    using e by (simp_all add: raises_root rendered_root)
  then show "\<exists>s'. renderToVNode saveVNode i root s = Inr (JNull, s')"
    using renderToVNode_outcome [of root saveVNode i s] by simp
next
  assume "raises False root"
  then show "\<exists>msg. renderToVNode saveVNode i root s = Inl (Error msg)"
    using renderToVNode_outcome [of root saveVNode i s] by simp
next
  assume "\<not> raises False root"
  then show "\<exists>s'. renderToVNode saveVNode i root s = Inr (rendered [] root, s')"
    using renderToVNode_outcome [of root saveVNode i s] by simp
qed

text \<open>
  The theorem at four roots: a chain of two Views that ends in the number 5, the same
  chain ending in \<^verbatim>\<open>null\<close>, a View whose child View has the number 42 as a child, and the
  View of the counterexample.
\<close>

theorem C6_render_contract_witness:
  "chainEnd numberBody = JNumber 5 \<and>
   renderToVNode False False numberBody startWorld = Inl (Error expectedVNode) \<and>
   chainEnd nullBody = JNull \<and>
   (\<exists>s'. renderToVNode False False nullBody startWorld = Inr (JNull, s')) \<and>
   raises False badChildOfView \<and>
   (\<exists>msg. renderToVNode False False badChildOfView startWorld = Inl (Error msg)) \<and>
   \<not> raises False badChildOfVNode \<and>
   (\<exists>s'. renderToVNode False False badChildOfVNode startWorld = Inr (rendered [] badChildOfVNode, s'))"
proof -
  have h: "chainEnd numberBody = JNumber 5" "chainEnd nullBody = JNull"
    "raises False badChildOfView" "\<not> raises False badChildOfVNode"
    by (simp_all add: numberBody_def nullBody_def badChildOfView_def badChildOfVNode_def)
  show ?thesis
    using h C6_render_contract [of numberBody 5 False False startWorld]
      C6_render_contract [of nullBody 0 False False startWorld]
      C6_render_contract [of badChildOfView 0 False False startWorld]
      C6_render_contract [of badChildOfVNode 0 False False startWorld]
    by simp
qed

section \<open>The guards of mount and unmount\<close>

text \<open>
  Claim C7, as stated, says that a second call of mount on the same component, with no
  unmount in between, fails. \<^verbatim>\<open>mountTo\<close> only enqueues the mounting, and \<^verbatim>\<open>mounted\<close> is
  read off \<^verbatim>\<open>lastVNode\<close>, which the enqueued unit of work sets when it runs: a second
  call made before that does not fail, and a second mounting is enqueued.
\<close>

theorem C7_second_mount_before_the_work_runs:
  "(case mountTo 1 (DomNode 0) startWorld of
      Inl e \<Rightarrow> False
    | Inr s1 \<Rightarrow>
        \<not> mounted s1 1 \<and>
        (case mountTo 1 (DomNode 0) s1 of
           Inl e \<Rightarrow> False
         | Inr s2 \<Rightarrow> queue s2 = [MountWork 1 (DomNode 0), MountWork 1 (DomNode 0)]))"
  by (simp add: mountTo_def mounted_def startWorld_def newView_def addUnitOfWork_def)

text \<open>
  Claim C7, amended: \<^verbatim>\<open>mountTo\<close> on a mounted component (its \<^verbatim>\<open>lastVNode\<close> is a virtual
  node bound to a live node) fails with the error \<open>The view is already mounted\<close>, whatever
  the target; on a component that is not mounted, \<^verbatim>\<open>mountTo\<close> with a target that is not a
  Node and \<^verbatim>\<open>unmount\<close> fail with errors of the same kind, and \<^verbatim>\<open>mountTo\<close> with a Node
  enqueues one unit of work and leaves the component not mounted, so that a call repeated
  before the unit has run is accepted again.
\<close>

theorem C7_mount_guards:
  "(mounted s v \<longrightarrow> mountTo v parent s = Inl (Error ''The view is already mounted'')) \<and>
   (\<not> mounted s v \<longrightarrow> mountTo v NotANode s = Inl (Error ''The parent is not an instance of Node'')) \<and>
   (\<not> mounted s v \<longrightarrow> unmount v s = Inl (Error ''The view is not mounted'')) \<and>
   (\<not> mounted s v \<longrightarrow>
      mountTo v (DomNode d) s = Inr (addUnitOfWork (MountWork v (DomNode d)) s) \<and>
      \<not> mounted (addUnitOfWork (MountWork v (DomNode d)) s) v)"
  by (simp add: mountTo_def unmount_def mounted_def addUnitOfWork_def)

text \<open>The theorem at a View that is mounted and at one that is not.\<close>

theorem C7_mount_guards_witness:
  "mounted mountedWorld 2 \<and>
   mountTo 2 (DomNode 0) mountedWorld = Inl (Error ''The view is already mounted'') \<and>
   \<not> mounted mountedWorld 1 \<and>
   mountTo 1 NotANode mountedWorld = Inl (Error ''The parent is not an instance of Node'') \<and>
   unmount 1 mountedWorld = Inl (Error ''The view is not mounted'') \<and>
   mountTo 1 (DomNode 0) mountedWorld = Inr (addUnitOfWork (MountWork 1 (DomNode 0)) mountedWorld) \<and>
   \<not> mounted (addUnitOfWork (MountWork 1 (DomNode 0)) mountedWorld) 1"
proof -
  have m: "mounted mountedWorld 2" "\<not> mounted mountedWorld 1"
    by (simp_all add: mounted_def mountedWorld_def updView_def startWorld_def newView_def)
  show ?thesis
    using m C7_mount_guards [of mountedWorld 2 "DomNode 0" 0] C7_mount_guards [of mountedWorld 1 NotANode 0]
    by simp
qed

section \<open>What a render pass leaves of the Views\<close>

lemma slotsOf_updView_other [simp]:
  "(\<And>x. stateSet (f x) = stateSet x) \<Longrightarrow> slotsOf (updView v f s) = slotsOf s"
  by (rule ext) (simp add: slotsOf_def updView_def)

lemma slotsOf_set_slot [simp]:
  "slotsOf (updView v (\<lambda>x. x\<lparr>stateSet := y\<rparr>) s) = (slotsOf s)(v := y)"
  by (rule ext) (simp add: slotsOf_def updView_def)

lemma bodyCalls_updView [simp]: "bodyCalls (updView v f s) = bodyCalls s"
  by (simp add: updView_def)

lemma queue_updView [simp]: "queue (updView v f s) = queue s"
  by (simp add: updView_def)

lemma invalidate_frame [simp]:
  "slotsOf (invalidate v s) = slotsOf s" "bodyCalls (invalidate v s) = bodyCalls s"
  "views (invalidate v s) = views s"
  by (simp_all add: invalidate_def addUnitOfWork_def slotsOf_def fun_eq_iff)

lemma stateSetCall_frame [simp]:
  "slotsOf (stateSetCall t keys s) = slotsOf s" "bodyCalls (stateSetCall t keys s) = bodyCalls s"
  by (simp_all add: stateSetCall_def dispatch_def split: slot.splits)

lemma stateSetCall_lastVNode [simp]:
  "lastVNode (views (stateSetCall t keys s) u) = lastVNode (views s u)"
  by (simp add: stateSetCall_def dispatch_def updView_def split: slot.splits)


lemma foldl_runAction_frame [simp]:
  "slotsOf (foldl runAction s acts) = slotsOf s"
  "bodyCalls (foldl runAction s acts) = bodyCalls s"
  "lastVNode (views (foldl runAction s acts) u) = lastVNode (views s u)"
proof (induction acts arbitrary: s)
  case (Cons a acts)
  {
    case 1
    show ?case using Cons.IH(1) by (cases a) simp
  next
    case 2
    show ?case using Cons.IH(2) by (cases a) simp
  next
    case 3
    show ?case using Cons.IH(3) by (cases a) simp
  }
qed simp_all


lemma getBody_frame [simp]:
  "slotsOf (getBody v acts s) = slotsOf s"
  "bodyCalls (getBody v acts s) = bodyCalls s @ [(v, slotsOf s)]"
  "lastVNode (views (getBody v acts s) u) = lastVNode (views s u)"
proof -
  have "slotsOf (s\<lparr>bodyCalls := bodyCalls s @ [(v, slotsOf s)]\<rparr>) = slotsOf s"
    by (simp add: slotsOf_def fun_eq_iff)
  then show "slotsOf (getBody v acts s) = slotsOf s"
    by (simp add: getBody_def)
qed (simp_all add: getBody_def)




lemma pass_refl [simp]: "pass s [] s"
  by (simp add: pass_def)


lemma still_refl [simp]: "still s s"
  by (simp add: still_def)




lemma saveAll_frame [simp]:
  "slotsOf (saveAll vs n s) = slotsOf s" "bodyCalls (saveAll vs n s) = bodyCalls s"
  "queue (saveAll vs n s) = queue s"
  "currentState (views (saveAll vs n s) u) = currentState (views s u)"
  unfolding saveAll_def
  by (induction vs arbitrary: s) (simp_all, simp_all add: updView_def)

lemma saveAll_lastVNode:
  "lastVNode (views (saveAll vs n s) u) = (if u \<in> set vs then n else lastVNode (views s u))"
  unfolding saveAll_def
proof (induction vs arbitrary: s)
  case (Cons v vs)
  show ?case
    by (simp add: Cons.IH) (simp add: updView_def)
qed simp



lemma childViews_True_chain:
  "childViews True x =
     (case chainEnd x of
        JVNode p cs d vw \<Rightarrow> concat (map (\<lambda>c. if isView c then c # childViews False c else []) cs)
      | _ \<Rightarrow> [])"
  by (induction x) simp_all

lemma written_not_view: "\<not> isView c \<Longrightarrow> written saveVNode c = []"
  by (cases c) (simp_all add: written_def)

lemma written_children:
  "concat (map chainViews (concat (map (\<lambda>c. if isView c then c # childViews False c else []) cs)))
     = concat (map (written True) cs)"
proof (induction cs)
  case (Cons c cs)
  show ?case
  proof (cases "isView c")
    case True
    then show ?thesis
      using Cons.IH by (simp add: written_def)
  next
    case False
    then show ?thesis
      using Cons.IH by (simp add: written_not_view)
  qed
qed simp

lemma written_root:
  assumes "\<not> isVNode root"
  shows "written saveVNode root =
           (if saveVNode then chainViews root else []) @
           (case chainEnd root of JVNode p cs d vw \<Rightarrow> concat (map (written True) cs) | _ \<Rightarrow> [])"
proof (cases root)
  case (JView v acts b)
  have "childViews False root = childViews True b"
    using JView by simp
  then show ?thesis
    using JView written_children
    by (simp add: written_def childViews_True_chain [of b] split: jsval.splits)
qed (use assms in \<open>simp_all add: written_def\<close>)




subsection \<open>A pass that ignores state changes against a pass that does not\<close>

lemma sameBut_refl [simp]: "sameBut a a"
  by (simp add: sameBut_def)





lemma stripOwn_shape [simp]:
  "isVNode (stripOwn c x) = isVNode x" "isView (stripOwn c x) = isView x"
  "chainViews (stripOwn c x) = chainViews x"
  by (induction x arbitrary: c) simp_all






subsection \<open>Which Views a pass saves its result to\<close>

lemma chainState_lastVNode [simp]:
  "lastVNode (views (chainState i x s) u) = lastVNode (views s u)"
proof (induction x arbitrary: s)
  case (JView v acts b)
  show ?case
    using JView.IH by (cases i) (simp_all add: updView_def)
qed simp_all

lemma written_viewsUnder: "written True c = concat (map chainViews (viewsUnder c))"
proof (cases "isView c")
  case True
  then show ?thesis by (simp add: viewsUnder_def written_def)
next
  case False
  then show ?thesis by (simp add: viewsUnder_def written_not_view)
qed

lemma childViews_root:
  assumes "\<not> isVNode root"
  shows "childViews False root =
           (case chainEnd root of JVNode p cs d vw \<Rightarrow> concat (map viewsUnder cs) | _ \<Rightarrow> [])"
proof (cases root)
  case (JView v acts b)
  then show ?thesis
    by (simp add: childViews_True_chain [of b] viewsUnder_def [abs_def] split: jsval.splits)
qed (use assms in simp_all)

lemma kept_refl [simp]: "kept vs s s"
  by (simp add: kept_def)

lemma kept_trans: "kept vs a b \<Longrightarrow> kept ws b c \<Longrightarrow> kept (vs @ ws) a c"
  by (simp add: kept_def)

lemma savedIn_kept:
  assumes "savedIn cs t" and "kept ws t s'"
    and "set (concat (map chainViews cs)) \<inter> set ws = {}"
  shows "savedIn cs s'"
  unfolding savedIn_def
proof (intro ballI)
  fix c v
  assume c: "c \<in> set cs" and v: "v \<in> set (chainViews c)"
  then have "v \<notin> set ws"
    using assms(3) by auto
  then have "lastVNode (views s' v) = lastVNode (views t v)"
    using assms(2) by (simp add: kept_def)
  then show "lastVNode (views s' v) = rendered [] c"
    using assms(1) c v by (simp add: savedIn_def)
qed

lemma savedIn_append: "savedIn (as @ bs) s \<longleftrightarrow> savedIn as s \<and> savedIn bs s"
  by (auto simp: savedIn_def)

lemma renderChildren_saves:
  assumes "\<And>c t r t'. c \<in> set cs \<Longrightarrow> rec c t = Inr (r, t') \<Longrightarrow> distinct (written True c) \<Longrightarrow>
             kept (written True c) t t' \<and> savedIn (viewsUnder c) t'"
    and "distinct (concat (map (written True) cs))"
    and "renderChildren rec cs s = Inr (cs', s')"
  shows "kept (concat (map (written True) cs)) s s' \<and> savedIn (concat (map viewsUnder cs)) s'"
  using assms
proof (induction cs arbitrary: s cs')
  case Nil
  then show ?case by (simp add: savedIn_def)
next
  case (Cons c cs)
  from Cons.prems(3) obtain r t rs where
    1: "rec c s = Inr (r, t)" and 2: "renderChildren rec cs t = Inr (rs, s')"
    by (auto simp: bindE_Inr_iff split: if_splits)
  have d: "distinct (written True c)" "distinct (concat (map (written True) cs))"
    "set (written True c) \<inter> set (concat (map (written True) cs)) = {}"
    using Cons.prems(2) by simp_all
  have a: "kept (written True c) s t" "savedIn (viewsUnder c) t"
    using Cons.prems(1) [OF _ 1 d(1)] by simp_all
  have b: "kept (concat (map (written True) cs)) t s' \<and> savedIn (concat (map viewsUnder cs)) s'"
    by (rule Cons.IH [OF _ d(2) 2]) (use Cons.prems(1) in auto)
  have "savedIn (viewsUnder c) s'"
    by (rule savedIn_kept [OF a(2) conjunct1 [OF b]]) (use d(3) in \<open>simp add: written_viewsUnder\<close>)
  then show ?case
    using kept_trans [OF a(1) conjunct1 [OF b]] b by (simp add: savedIn_append)
qed

lemma kept_saveAll: "kept ws s s2 \<Longrightarrow> kept (vs @ ws) s (saveAll vs n s2)"
  by (simp add: kept_def saveAll_lastVNode)

lemma renderToVNode_node:
  assumes "renderToVNode saveVNode i root s = Inr (node, s')"
  shows "node = rendered [] root"
  using assms renderToVNode_outcome [of root saveVNode i s] by (cases "raises False root") auto

lemma renderToVNode_saves:
  "renderToVNode saveVNode i root s = Inr (node, s') \<Longrightarrow> distinct (written True root) \<Longrightarrow>
   kept (written saveVNode root) s s' \<and>
   savedIn ((if saveVNode then viewsUnder root else childViews False root)) s'"
proof (induction saveVNode i root s arbitrary: node s' rule: renderToVNode.induct)
  case (1 saveVNode i root s)
  note node = renderToVNode_node [OF "1.prems"(1)]
  show ?case
  proof (cases "isVNode root")
    case True
    then have "written saveVNode root = []" "viewsUnder root = []" "childViews False root = []"
      by (cases root; simp add: written_def viewsUnder_def)+
    then show ?thesis
      using renderToVNode_VNode [OF True, of saveVNode i s] "1.prems" by (simp add: savedIn_def)
  next
    case nv: False
    note unf = renderToVNode.simps [of saveVNode i root s] chain_eq [of i root "[]" s]
    let ?s1 = "chainState i root s"
    have c1: "kept [] s ?s1"
      by (simp add: kept_def)
    show ?thesis
    proof (cases "chainEnd root")
      case JNull
      then have s': "s' = (if saveVNode then saveAll (chainViews root) JNull ?s1 else ?s1)"
        and n: "node = JNull"
        using nv "1.prems" by (auto simp: unf bindE_def split: if_splits)
      have cv: "childViews False root = []"
        using nv JNull by (simp add: childViews_root)
      have "kept (written saveVNode root) s s'"
        using s' kept_saveAll [OF c1, of "chainViews root" JNull] c1 nv JNull
        by (simp add: written_root)
      moreover have "savedIn (if saveVNode then viewsUnder root else childViews False root) s'"
        using s' cv n node by (auto simp: savedIn_def viewsUnder_def saveAll_lastVNode)
      ultimately show ?thesis
        by simp
    next
      case (JNumber n)
      then show ?thesis
        using nv "1.prems" by (simp add: unf bindE_def)
    next
      case (JView v acts b)
      then show ?thesis
        using chainEnd_not_view [of root] by simp
    next
      case (JVNode p cs d vw)
      let ?W = "concat (map (written True) cs)"
      have wr: "written True root = chainViews root @ ?W" "written False root = ?W"
        using nv JVNode by (simp_all add: written_root)
      have cv: "childViews False root = concat (map viewsUnder cs)"
        using nv JVNode by (simp add: childViews_root)
      have dis: "distinct ?W" "set (chainViews root) \<inter> set ?W = {}"
        using "1.prems"(2) wr(1) by simp_all
      have ih0: "kept (written True c) t t' \<and>
                 savedIn (if True then viewsUnder c else childViews False c) t'"
        if "c \<in> set cs" "renderToVNode True i c t = Inr (r, t')" "distinct (written True c)"
        for c t r t'
        using that by (intro "1.IH" [OF nv]) (simp_all add: chain_eq JVNode)
      have ih: "kept (written True c) t t' \<and> savedIn (viewsUnder c) t'"
        if "c \<in> set cs" "renderToVNode True i c t = Inr (r, t')" "distinct (written True c)"
        for c t r t'
        using ih0 [OF that] by simp
      from "1.prems" obtain cs' s2 where
        rc: "renderChildren (\<lambda>c t. renderToVNode True i c t) cs ?s1 = Inr (cs', s2)"
        and s': "s' = (if saveVNode then saveAll (chainViews root) node s2 else s2)"
        using nv JVNode by (auto simp: unf bindE_Inr_iff)
      have k: "kept ?W ?s1 s2 \<and> savedIn (concat (map viewsUnder cs)) s2"
        by (rule renderChildren_saves [OF _ dis(1) rc]) (rule ih)
      have k2: "kept ?W s s2"
        using kept_trans [OF c1 conjunct1 [OF k]] by simp
      show ?thesis
      proof (cases saveVNode)
        case False
        then show ?thesis
          using s' k k2 wr cv by simp
      next
        case True
        have iv: "isView root"
          using nv JVNode chainEnd_self [of root] by (cases "isView root") auto
        have a: "kept (written True root) s s'"
          using kept_saveAll [OF k2, of "chainViews root" node] s' True wr by simp
        have b: "kept (chainViews root) s2 s'"
          using s' True by (simp add: kept_def saveAll_lastVNode)
        have wv: "set (concat (map chainViews (concat (map viewsUnder cs)))) = set ?W"
          by (simp add: written_viewsUnder)
        have dj: "set (concat (map chainViews (concat (map viewsUnder cs)))) \<inter> set (chainViews root) = {}"
          unfolding wv using dis(2) by blast
        have "savedIn (concat (map viewsUnder cs)) s'"
          by (rule savedIn_kept [OF conjunct2 [OF k] b dj])
        moreover have "savedIn [root] s'"
          using s' True node by (simp add: savedIn_def saveAll_lastVNode)
        ultimately have "savedIn (viewsUnder root) s'"
          using iv cv by (simp add: viewsUnder_def savedIn_def)
        then show ?thesis
          using a True by simp
      qed
    qed
  qed
qed

section \<open>Rendering with state changes ignored\<close>




section \<open>What a pass without \<open>saveVNode\<close> still saves\<close>

text \<open>
  Claim C9, as stated, says that in a pass with \<^verbatim>\<open>saveVNode: false\<close> every child View
  occurring in the children of the resolved tree has its \<^verbatim>\<open>lastVNode\<close> overwritten, and that
  only the Views of the root chain are left unchanged. A child that is already a virtual
  node is returned as it is by the recursive call, and so is a root that is one: a View
  below such a node is not rendered, stays a View in the tree returned, and keeps its
  \<^verbatim>\<open>lastVNode\<close>.
\<close>

theorem C9_view_below_a_virtual_node_is_not_saved:
  "(case renderToVNode False False nestedViews startWorld of
      Inl e \<Rightarrow> False
    | Inr (node, s') \<Rightarrow>
        (case node of
           JVNode p [first, second] d vw \<Rightarrow> second = JVNode divProps [leafView 4] None None
         | _ \<Rightarrow> False) \<and>
        lastVNode (views s' 4) = lastVNode (views startWorld 4)) \<and>
   (case renderToVNode False False builtChild startWorld of
      Inl e \<Rightarrow> False
    | Inr (node, s') \<Rightarrow>
        node = JVNode divProps [leafView 4] None None \<and>
        lastVNode (views s' 4) = lastVNode (views startWorld 4))"
  by code_simp

text \<open>
  Claim C9, amended: let a pass with \<^verbatim>\<open>saveVNode: false\<close> return, and let no View occur
  twice among the Views that the pass walks (\<open>written True root\<close>). Every child View that the
  pass renders (\<open>childViews False root\<close>: a View that is an entry of the body of the node in
  which the chain of the root, or of a rendered child View, ends) has the node it renders to
  as its \<^verbatim>\<open>lastVNode\<close>, and so has every View of its chain. Every View of the chain of the
  root keeps its \<^verbatim>\<open>lastVNode\<close>, and so does every View that is not in the chain of a
  rendered child View (\<open>written False root\<close>), a View below a child that is already a
  virtual node among them.
\<close>

theorem C9_children_are_saved_without_saveVNode:
  assumes "renderToVNode False i root s = Inr (node, s')"
    and "distinct (written True root)"
  shows "node = rendered [] root \<and>
         (\<forall>c \<in> set (childViews False root). \<forall>v \<in> set (chainViews c).
            lastVNode (views s' v) = rendered [] c) \<and>
         (\<forall>v \<in> set (chainViews root). lastVNode (views s' v) = lastVNode (views s v)) \<and>
         (\<forall>v. v \<notin> set (written False root) \<longrightarrow> lastVNode (views s' v) = lastVNode (views s v))"
proof -
  have k: "kept (written False root) s s'" and sv: "savedIn (childViews False root) s'"
    using renderToVNode_saves [OF assms] by simp_all
  have "set (chainViews root) \<inter> set (written False root) = {}"
    using assms(2) by (auto simp: written_def)
  then have "\<forall>v \<in> set (chainViews root). lastVNode (views s' v) = lastVNode (views s v)"
    using k by (auto simp: kept_def)
  then show ?thesis
    using renderToVNode_node [OF assms(1)] k sv by (simp add: kept_def savedIn_def)
qed

text \<open>The theorem at the View with a delegating child and a child that is a virtual
  node.\<close>

theorem C9_children_are_saved_witness:
  "distinct (written True nestedViews) \<and>
   (\<exists>node s'. renderToVNode False False nestedViews startWorld = Inr (node, s') \<and>
      node = rendered [] nestedViews \<and>
      lastVNode (views s' 1) = JNull \<and>
      lastVNode (views s' 2) = rendered [] delegatingChild \<and>
      lastVNode (views s' 3) = rendered [] delegatingChild \<and>
      lastVNode (views s' 5) = rendered [] (leafView 5) \<and>
      lastVNode (views s' 4) = JNull)"
proof -
  have d: "distinct (written True nestedViews)"
    by (simp add: written_def nestedViews_def delegatingChild_def builtChild_def leafView_def)
  have "\<not> raises False nestedViews"
    by (simp add: nestedViews_def delegatingChild_def builtChild_def leafView_def)
  then obtain s' where
    r: "renderToVNode False False nestedViews startWorld = Inr (rendered [] nestedViews, s')"
    using renderToVNode_outcome [of nestedViews False False startWorld] by auto
  note t = C9_children_are_saved_without_saveVNode [OF r d]
  have cv: "childViews False nestedViews = [delegatingChild, leafView 5]"
    by (simp add: nestedViews_def delegatingChild_def builtChild_def leafView_def)
  have ch: "chainViews delegatingChild = [2, 3]" "chainViews (leafView 5) = [5]"
    "chainViews nestedViews = [1]" "written False nestedViews = [2, 3, 5]"
    by (simp_all add: written_def nestedViews_def delegatingChild_def builtChild_def leafView_def)
  have z: "lastVNode (views startWorld v) = JNull" for v
    by (simp add: startWorld_def newView_def)
  have 1: "lastVNode (views s' 1) = JNull"
    using t ch z by simp
  have 2: "lastVNode (views s' 2) = rendered [] delegatingChild"
    "lastVNode (views s' 3) = rendered [] delegatingChild"
    "lastVNode (views s' 5) = rendered [] (leafView 5)"
    using t cv ch by simp_all
  have 4: "lastVNode (views s' 4) = JNull"
    using t ch z by simp
  show ?thesis
    using d r 1 2 4 by blast
qed

end
